theory Spec2Isabelle
  imports Complex_Main "HOL-Library.Word" "HOL-Library.Log_Nat"
begin

unbundle bit_operations_syntax

section \<open>Single-precision samples\<close>

text \<open>
  Every audio sample of the pipeline is a C++ \<^verbatim>\<open>float\<close>. A sample is modelled as an IEEE-754
  binary32 datum: a finite value (a rational number that is representable), one of the two
  infinities, or a NaN. The sign of zero and NaN payloads are not distinguished. Each
  arithmetic operation is the exact rational operation followed by rounding to nearest, ties
  to even, with gradual underflow and overflow to infinity.
\<close>

datatype f32 = Finite rat | PosInf | NegInf | NaN

text \<open>\<open>ilog2 a\<close> is \<open>\<lfloor>log\<^sub>2 a\<rfloor>\<close> for a positive rational \<open>a\<close>.\<close>

definition ilog2 :: "rat \<Rightarrow> int" where
  "ilog2 a = (let (p, q) = quotient_of a; e = bitlen p - bitlen q
              in if 2 powi e \<le> a then e else e - 1)"

definition round_half_even :: "rat \<Rightarrow> int" where
  "round_half_even x =
     (let f = \<lfloor>x\<rfloor>; d = x - of_int f
      in if d < 1 / 2 then f else if 1 / 2 < d then f + 1 else if even f then f else f + 1)"

definition f32_round :: "rat \<Rightarrow> f32" where
  "f32_round q =
     (if q = 0 then Finite 0
      else
        let a = \<bar>q\<bar>;
            e = max (ilog2 a) (- 126);
            u = 2 powi (e - 23);
            r = of_int (round_half_even (a / u)) * u
        in if 2 ^ 128 \<le> r then (if 0 < q then PosInf else NegInf)
           else Finite (if 0 < q then r else - r))"

definition f32_sgn :: "f32 \<Rightarrow> int" where
  "f32_sgn x =
     (case x of
        Finite a \<Rightarrow> (if a < 0 then - 1 else if a = 0 then 0 else 1)
      | PosInf \<Rightarrow> 1
      | NegInf \<Rightarrow> - 1
      | NaN \<Rightarrow> 0)"

definition inf_of_sign :: "int \<Rightarrow> f32" where
  "inf_of_sign s = (if s < 0 then NegInf else PosInf)"

fun fneg :: "f32 \<Rightarrow> f32" where
  "fneg (Finite a) = Finite (- a)"
| "fneg PosInf = NegInf"
| "fneg NegInf = PosInf"
| "fneg NaN = NaN"

fun fadd :: "f32 \<Rightarrow> f32 \<Rightarrow> f32" where
  "fadd (Finite a) (Finite b) = f32_round (a + b)"
| "fadd NaN y = NaN"
| "fadd x NaN = NaN"
| "fadd PosInf NegInf = NaN"
| "fadd NegInf PosInf = NaN"
| "fadd PosInf y = PosInf"
| "fadd NegInf y = NegInf"
| "fadd (Finite a) y = y"

definition fsub :: "f32 \<Rightarrow> f32 \<Rightarrow> f32" where
  "fsub x y = fadd x (fneg y)"

fun fmul :: "f32 \<Rightarrow> f32 \<Rightarrow> f32" where
  "fmul (Finite a) (Finite b) = f32_round (a * b)"
| "fmul NaN y = NaN"
| "fmul x NaN = NaN"
| "fmul x y =
     (if f32_sgn x * f32_sgn y = 0 then NaN else inf_of_sign (f32_sgn x * f32_sgn y))"

fun fdiv :: "f32 \<Rightarrow> f32 \<Rightarrow> f32" where
  "fdiv (Finite a) (Finite b) =
     (if b = 0 then (if a = 0 then NaN else inf_of_sign (f32_sgn (Finite a)))
      else f32_round (a / b))"
| "fdiv NaN y = NaN"
| "fdiv x NaN = NaN"
| "fdiv (Finite a) y = Finite 0"
| "fdiv x (Finite b) = inf_of_sign (f32_sgn x * (if b < 0 then - 1 else 1))"
| "fdiv x y = NaN"

text \<open>The comparison \<^verbatim>\<open>x > y\<close>: false as soon as one side is a NaN.\<close>

fun fgt :: "f32 \<Rightarrow> f32 \<Rightarrow> bool" where
  "fgt (Finite a) (Finite b) = (b < a)"
| "fgt NaN y = False"
| "fgt x NaN = False"
| "fgt PosInf y = (y \<noteq> PosInf)"
| "fgt x NegInf = (x \<noteq> NegInf)"
| "fgt x y = False"


text \<open>Value initialisation of a \<^verbatim>\<open>float\<close> is \<open>0.0f\<close>.\<close>

instantiation f32 :: zero
begin

definition zero_f32 :: f32 where
  "zero_f32 = Finite 0"

instance ..

end

text \<open>The literal \<^verbatim>\<open>(1.0f/3.0f)\<close> of \<^verbatim>\<open>Resampler3x.h\<close>.\<close>

definition third :: f32 where
  "third = fdiv (Finite 1) (Finite 3)"

section \<open>Machine integers\<close>

text \<open>
  \<^verbatim>\<open>int\<close> values are mathematical integers; where the source can leave the 32-bit range the
  two's complement wrap-around is written out with \<open>i32\<close>. Division truncates towards
  zero, as in C++.
\<close>

definition i32 :: "int \<Rightarrow> int" where
  "i32 x = (x + 2 ^ 31) mod 2 ^ 32 - 2 ^ 31"

definition c_div :: "int \<Rightarrow> int \<Rightarrow> int" where
  "c_div a b = sgn a * sgn b * (\<bar>a\<bar> div \<bar>b\<bar>)"

section \<open>Resampler3x\<close>

datatype Mode = DownBy3 | UpBy3

record Resampler3x =
  mMode :: Mode
  mPrevSample :: f32
  mHadPrev :: bool

definition reset :: "Resampler3x \<Rightarrow> Resampler3x" where
  "reset r = r\<lparr>mPrevSample := Finite 0, mHadPrev := False\<rparr>"

definition setMode :: "Resampler3x \<Rightarrow> Mode \<Rightarrow> Resampler3x" where
  "setMode r m = reset (r\<lparr>mMode := m\<rparr>)"

text \<open>
  Buffers are lists. \<open>inp\<close> is the caller's input buffer and \<open>out\<close> the caller's output
  buffer; a call returns the frame count together with the output buffer after the writes.
\<close>

definition down3_sample :: "f32 list \<Rightarrow> nat \<Rightarrow> f32" where
  "down3_sample inp g =
     (let s0 = inp ! (g * 3 + 0); s1 = inp ! (g * 3 + 1); s2 = inp ! (g * 3 + 2)
      in fmul (fadd (fadd s0 s1) s2) third)"

definition processDown3 :: "f32 list \<Rightarrow> int \<Rightarrow> f32 list \<Rightarrow> int \<Rightarrow> int \<times> f32 list" where
  "processDown3 inp inFrames out outMaxFrames =
     (let groups = c_div inFrames 3;
          produced = min groups outMaxFrames
      in (produced, fold (\<lambda>g out. out[g := down3_sample inp g]) [0..<nat produced] out))"

function up3_loop :: "f32 list \<Rightarrow> int \<Rightarrow> int \<Rightarrow> int \<Rightarrow> int \<Rightarrow> f32 list \<Rightarrow> int \<times> f32 list" where
  "up3_loop inp inFrames producedMax i outIdx out =
     (if i < inFrames \<and> outIdx + 3 \<le> producedMax then
        let x0 = inp ! nat i;
            x1 = (if i + 1 < inFrames then inp ! nat (i + 1) else x0);
            d = fmul (fsub x1 x0) third;
            out1 = out[nat outIdx := x0];
            out2 = out1[nat (outIdx + 1) := fadd x0 d];
            out3 = out2[nat (outIdx + 2) := fadd x0 (fmul (Finite 2) d)]
        in up3_loop inp inFrames producedMax (i + 1) (outIdx + 3) out3
      else (outIdx, out))"
  by pat_completeness auto
termination
  by (relation "measure (\<lambda>(inp, inFrames, producedMax, i, outIdx, out). nat (inFrames - i))") auto

declare up3_loop.simps [simp del]

definition processUp3 ::
  "Resampler3x \<Rightarrow> f32 list \<Rightarrow> int \<Rightarrow> f32 list \<Rightarrow> int \<Rightarrow> (int \<times> f32 list) \<times> Resampler3x" where
  "processUp3 r inp inFrames out outMaxFrames =
     (if inFrames \<le> 0 then ((0, out), r)
      else
        let need = i32 (inFrames * 3);
            producedMax = min need outMaxFrames
        in (up3_loop inp inFrames producedMax 0 0 out,
            r\<lparr>mPrevSample := inp ! nat (inFrames - 1), mHadPrev := True\<rparr>))"

definition process ::
  "Resampler3x \<Rightarrow> f32 list \<Rightarrow> int \<Rightarrow> f32 list \<Rightarrow> int \<Rightarrow> (int \<times> f32 list) \<times> Resampler3x" where
  "process r inp inFrames out outMaxFrames =
     (if mMode r = DownBy3 then (processDown3 inp inFrames out outMaxFrames, r)
      else processUp3 r inp inFrames out outMaxFrames)"

text \<open>One iteration of the loop body, and the value the loop leaves in output slot \<open>k\<close>.\<close>

definition up3_step :: "f32 list \<Rightarrow> int \<Rightarrow> int \<Rightarrow> int \<Rightarrow> f32 list \<Rightarrow> f32 list" where
  "up3_step inp inFrames i outIdx out =
     out[nat outIdx := inp ! nat i,
         nat (outIdx + 1) := fadd (inp ! nat i)
           (fmul (fsub (if i + 1 < inFrames then inp ! nat (i + 1) else inp ! nat i) (inp ! nat i)) third),
         nat (outIdx + 2) := fadd (inp ! nat i) (fmul (Finite 2)
           (fmul (fsub (if i + 1 < inFrames then inp ! nat (i + 1) else inp ! nat i) (inp ! nat i)) third))]"

definition up3_value :: "f32 list \<Rightarrow> int \<Rightarrow> nat \<Rightarrow> f32" where
  "up3_value inp inFrames k =
     (let j = k div 3; x0 = inp ! j;
          x1 = (if int j + 1 < inFrames then inp ! (j + 1) else x0);
          d = fmul (fsub x1 x0) third
      in if k mod 3 = 0 then x0 else if k mod 3 = 1 then fadd x0 d
         else fadd x0 (fmul (Finite 2) d))"

section \<open>RingBuffer\<close>

text \<open>
  The ring stores interleaved samples of any type. The frame counters are the 64-bit unsigned
  atomics of the source; the accesses of the two threads are not modelled, every operation
  runs to completion on the state it is given. \<^verbatim>\<open>int32_t\<close> fields are integers, with the
  wrap-around of a conversion or of an overflowing operation written out.
\<close>

record 'a RingBuffer =
  mData :: "'a list"
  mChannels :: int
  mCapacityFrames :: int
  mMask :: int
  mRead :: "64 word"
  mWrite :: "64 word"

text \<open>A default-constructed ring.\<close>

definition RingBuffer_new :: "'a RingBuffer" where
  "RingBuffer_new =
     \<lparr>mData = [], mChannels = 1, mCapacityFrames = 0, mMask = 0, mRead = 0, mWrite = 0\<rparr>"

text \<open>
  \<^verbatim>\<open>nextPow2\<close> on \<^verbatim>\<open>int32_t\<close>: \<^verbatim>\<open>>>\<close> is the arithmetic shift \<open>drop_bit\<close>, \<^verbatim>\<open>|\<close> is \<open>OR\<close> on
  two's complement integers, and the decrement and the increment wrap.
\<close>

definition nextPow2 :: "int \<Rightarrow> int" where
  "nextPow2 v0 =
     (let v = i32 (v0 - 1);
          v = v OR drop_bit 1 v;
          v = v OR drop_bit 2 v;
          v = v OR drop_bit 4 v;
          v = v OR drop_bit 8 v;
          v = v OR drop_bit 16 v;
          v = i32 (v + 1)
      in if v < 2 then 2 else v)"

text \<open>
  \<^verbatim>\<open>std::vector::resize\<close> keeps a prefix and pads with value-initialised elements. Growing the
  vector needs storage, and \<^verbatim>\<open>resize\<close> throws (\<^verbatim>\<open>std::length_error\<close>, \<^verbatim>\<open>std::bad_alloc\<close>) when the
  vector cannot get it; whether it can is not decided by the program, so the model takes it as
  a parameter \<open>grants\<close> of \<open>init\<close>: \<open>grants n\<close> says that storage for \<open>n\<close> elements is obtained.
  Shrinking and keeping the size need none.
\<close>

datatype error = AllocError

definition resize :: "nat \<Rightarrow> 'a::zero list \<Rightarrow> 'a list" where
  "resize n xs = take n xs @ replicate (n - length xs) 0"

text \<open>
  \<open>init\<close> returns its outcome and the ring it leaves: \<open>Inr b\<close> when it returns \<open>b\<close>, \<open>Inl AllocError\<close>
  when \<^verbatim>\<open>resize\<close> throws, in which case the three members assigned before it keep their new
  values and the storage and the counters are untouched.
\<close>

definition init ::
  "(nat \<Rightarrow> bool) \<Rightarrow> 'a::zero RingBuffer \<Rightarrow> int \<Rightarrow> int \<Rightarrow> (error + bool) \<times> 'a RingBuffer" where
  "init grants rb capacityFrames channels =
     (if capacityFrames \<le> 0 \<or> channels \<le> 0 then (Inr False, rb)
      else
        let cap = nextPow2 capacityFrames;
            rb1 = rb\<lparr>mChannels := channels, mCapacityFrames := cap, mMask := i32 (cap - 1)\<rparr>;
            n = nat cap * nat channels
        in if length (mData rb) < n \<and> \<not> grants n then (Inl AllocError, rb1)
           else (Inr True, rb1\<lparr>mData := resize n (mData rb), mRead := 0, mWrite := 0\<rparr>))"

text \<open>\<^verbatim>\<open>static_cast<int32_t>\<close> of a 64-bit unsigned value.\<close>

definition to_int32 :: "64 word \<Rightarrow> int" where
  "to_int32 w = i32 (uint w)"

definition availableToRead :: "'a RingBuffer \<Rightarrow> int" where
  "availableToRead rb = to_int32 (mWrite rb - mRead rb)"

definition availableToWrite :: "'a RingBuffer \<Rightarrow> int" where
  "availableToWrite rb = i32 (mCapacityFrames rb - availableToRead rb)"

text \<open>
  \<^verbatim>\<open>memcpy\<close> of \<open>n\<close> elements from the start of \<open>src\<close> to offset \<open>off\<close> of \<open>dst\<close>. The
  source requires \<open>off + n \<le> length dst\<close> and \<open>n \<le> length src\<close>.
\<close>

definition memcpy :: "'a list \<Rightarrow> nat \<Rightarrow> 'a list \<Rightarrow> nat \<Rightarrow> 'a list" where
  "memcpy dst off src n = take off dst @ take n src @ drop (off + n) dst"

text \<open>The slot \<^verbatim>\<open>w & mMask\<close>; the mask is converted to 64 bits with its sign.\<close>

definition slot :: "'a RingBuffer \<Rightarrow> 64 word \<Rightarrow> 64 word" where
  "slot rb w = w AND word_of_int (mMask rb)"

definition writeInterleaved :: "'a RingBuffer \<Rightarrow> 'a list \<Rightarrow> int \<Rightarrow> int \<times> 'a RingBuffer" where
  "writeInterleaved rb src frames0 =
     (let frames = max 0 (min frames0 (availableToWrite rb))
      in if frames = 0 then (0, rb)
         else
           let w = mWrite rb;
               first = min frames (i32 (mCapacityFrames rb - to_int32 (slot rb w)));
               second = frames - first;
               ch = nat (mChannels rb);
               dataA = memcpy (mData rb) (unat (slot rb w) * ch) src (nat first * ch);
               dataB = (if 0 < second
                        then memcpy dataA 0 (drop (nat first * ch) src) (nat second * ch)
                        else dataA)
           in (frames, rb\<lparr>mData := dataB, mWrite := w + word_of_int frames\<rparr>))"

definition readInterleaved ::
  "'a RingBuffer \<Rightarrow> 'a list \<Rightarrow> int \<Rightarrow> (int \<times> 'a list) \<times> 'a RingBuffer" where
  "readInterleaved rb dst frames0 =
     (let frames = max 0 (min frames0 (availableToRead rb))
      in if frames = 0 then ((0, dst), rb)
         else
           let r = mRead rb;
               first = min frames (i32 (mCapacityFrames rb - to_int32 (slot rb r)));
               second = frames - first;
               ch = nat (mChannels rb);
               dstA = memcpy dst 0 (drop (unat (slot rb r) * ch) (mData rb)) (nat first * ch);
               dstB = (if 0 < second
                       then memcpy dstA (nat first * ch) (mData rb) (nat second * ch)
                       else dstA)
           in ((frames, dstB), rb\<lparr>mRead := r + word_of_int frames\<rparr>))"

text \<open>The five shift-and-or steps of \<^verbatim>\<open>nextPow2\<close>, without the wrap-around.\<close>

definition smear :: "int \<Rightarrow> int" where
  "smear v0 =
     (let v = v0;
          v = v OR drop_bit 1 v;
          v = v OR drop_bit 2 v;
          v = v OR drop_bit 4 v;
          v = v OR drop_bit 8 v;
          v = v OR drop_bit 16 v
      in v)"

text \<open>A ring as \<open>init\<close> leaves it: capacity \<open>2\<^sup>k\<close>, the matching mask, storage of the right size.\<close>

definition ring_wf :: "'a RingBuffer \<Rightarrow> nat \<Rightarrow> bool" where
  "ring_wf rb k \<longleftrightarrow>
     1 \<le> k \<and> k \<le> 30 \<and> mCapacityFrames rb = 2 ^ k \<and> mMask rb = 2 ^ k - 1
     \<and> 1 \<le> mChannels rb \<and> length (mData rb) = 2 ^ k * nat (mChannels rb)"

section \<open>FullDuplexEngine: the playback callback\<close>

text \<open>
  The playback stream is a handle of the audio library; of it the engine reads the channel
  count, the burst size and the sample rate. \<^verbatim>\<open>pullTo\<close> touches the output ring, the underflow
  counter and the start time of the engine, so the engine state is modelled with these
  members. A \<^verbatim>\<open>steady_clock\<close> time point is a number of nanoseconds, and the reading of the
  clock inside \<^verbatim>\<open>pullTo\<close> is an argument of the model.
\<close>

record AudioStream =
  channelCount :: int
  framesPerBurst :: int
  sampleRate :: int

record FullDuplexEngine =
  mOut :: AudioStream
  mOutRing :: "f32 RingBuffer"
  mUnderflows :: "64 word"
  mOverflows :: "64 word"
  mStartTime :: int

text \<open>\<^verbatim>\<open>readInterleaved\<close> with the destination \<^verbatim>\<open>out + off\<close>.\<close>

definition read_at ::
  "f32 RingBuffer \<Rightarrow> f32 list \<Rightarrow> nat \<Rightarrow> int \<Rightarrow> (int \<times> f32 list) \<times> f32 RingBuffer" where
  "read_at rb out off frames =
     (let r = readInterleaved rb (drop off out) frames
      in ((fst (fst r), take off out @ snd (fst r)), snd r))"

text \<open>\<^verbatim>\<open>memset\<close> of \<open>n\<close> floats at offset \<open>off\<close> with zero bytes, which is \<open>0.0f\<close>.\<close>

definition memset_zero :: "f32 list \<Rightarrow> nat \<Rightarrow> nat \<Rightarrow> f32 list" where
  "memset_zero dst off n = take off dst @ replicate n (Finite 0) @ drop (off + n) dst"

text \<open>
  The \<^verbatim>\<open>while (total < numFrames)\<close> loop of \<^verbatim>\<open>pullTo\<close>; \<open>tot\<close> is the variable \<^verbatim>\<open>total\<close>. A
  read returns at most what it is asked for, so \<open>tot\<close> stays between 0 and \<open>numFrames\<close>.
\<close>

function pull_loop ::
  "f32 RingBuffer \<Rightarrow> int \<Rightarrow> f32 list \<Rightarrow> int \<Rightarrow> int \<Rightarrow> (int \<times> f32 list) \<times> f32 RingBuffer" where
  "pull_loop ring ch out numFrames tot =
     (if tot < numFrames then
        let r = read_at ring out (nat tot * nat ch) (numFrames - tot);
            got = fst (fst r)
        in if got \<le> 0 then ((tot, snd (fst r)), snd r)
           else pull_loop (snd r) ch (snd (fst r)) numFrames (tot + got)
      else ((tot, out), ring))"
  by pat_completeness auto
termination
  by (relation "measure (\<lambda>(ring, ch, out, numFrames, tot). nat (numFrames - tot))") auto

declare pull_loop.simps [simp del]

text \<open>\<^verbatim>\<open>std::chrono::milliseconds(300)\<close> in nanoseconds.\<close>

definition ms300 :: int where
  "ms300 = 300 * 1000000"

text \<open>
  \<^verbatim>\<open>pullTo\<close>: the loop, then the zero fill and the underflow count when the ring ran short.
\<close>

definition pullTo ::
  "FullDuplexEngine \<Rightarrow> f32 list \<Rightarrow> int \<Rightarrow> int \<Rightarrow> (int \<times> f32 list) \<times> FullDuplexEngine" where
  "pullTo eng out numFrames now =
     (let l = pull_loop (mOutRing eng) (channelCount (mOut eng)) out numFrames 0;
          tot = fst (fst l); out1 = snd (fst l); eng1 = eng\<lparr>mOutRing := snd l\<rparr>
      in if tot < numFrames then
           let ch = channelCount (mOut eng1);
               out2 = memset_zero out1 (nat tot * nat ch) (nat (numFrames - tot) * nat ch);
               warming = (now - mStartTime eng1 < ms300)
           in ((numFrames, out2),
               (if \<not> warming
                then eng1\<lparr>mUnderflows := mUnderflows eng1 + word_of_int (numFrames - tot)\<rparr>
                else eng1))
         else ((numFrames, out1), eng1))"

section \<open>StftProcessor\<close>

text \<open>
  The constants of \<^verbatim>\<open>StftProcessor.h\<close>. \<^verbatim>\<open>kEps\<close> is the literal \<^verbatim>\<open>1e-8f\<close>, \<open>pi_f32\<close> is
  \<^verbatim>\<open>float(M_PI)\<close>.
\<close>

definition kNFFT :: nat where "kNFFT = 512"
definition kHOP :: int where "kHOP = 96"
definition kFRAME :: nat where "kFRAME = 480"
definition kEps :: f32 where "kEps = f32_round (1 / 10 ^ 8)"
definition pi_f32 :: f32 where "pi_f32 = Finite (13176795 / 4194304)"

text \<open>
  \<^verbatim>\<open>std::cos\<close> and \<^verbatim>\<open>std::sin\<close> on \<^verbatim>\<open>float\<close> belong to the C library, which does not fix their
  results to the last bit: they are parameters of the model.
\<close>

record libm =
  cosf :: "f32 \<Rightarrow> f32"
  sinf :: "f32 \<Rightarrow> f32"

text \<open>The conversion \<^verbatim>\<open>float(n)\<close> of an integer.\<close>

definition float_of_nat :: "nat \<Rightarrow> f32" where
  "float_of_nat n = f32_round (of_nat n)"

definition hann512 :: "libm \<Rightarrow> nat \<Rightarrow> nat \<Rightarrow> f32" where
  "hann512 m n N =
     fmul (Finite (1 / 2))
       (fsub (Finite 1)
          (cosf m (fdiv (fmul (fmul (Finite 2) pi_f32) (float_of_nat n)) (float_of_nat (N - 1)))))"

text \<open>
  \<^verbatim>\<open>std::complex<float>\<close>. Sum and difference work on the two parts. The product is the one of
  the C++ library and of the compiler's runtime: the four partial products are combined as in
  the textbook, and when both parts of the result are NaN it is computed again as an infinity,
  after infinite operands are replaced by \<open>\<plusminus>1\<close> and the other parts or NaNs by 0, in the three
  cases in which an operand or a partial product is infinite (Annex G of the C standard).
\<close>

type_synonym cplx = "f32 \<times> f32"

definition cadd :: "cplx \<Rightarrow> cplx \<Rightarrow> cplx" where
  "cadd u v = (fadd (fst u) (fst v), fadd (snd u) (snd v))"

definition csub :: "cplx \<Rightarrow> cplx \<Rightarrow> cplx" where
  "csub u v = (fsub (fst u) (fst v), fsub (snd u) (snd v))"

definition is_inf :: "f32 \<Rightarrow> bool" where
  "is_inf x \<longleftrightarrow> x = PosInf \<or> x = NegInf"

text \<open>\<^verbatim>\<open>copysign(isinf(x) ? 1 : 0, x)\<close>, and \<^verbatim>\<open>if (isnan(x)) x = copysign(0, x)\<close>.\<close>

definition box_inf :: "f32 \<Rightarrow> f32" where
  "box_inf x = (if x = PosInf then Finite 1 else if x = NegInf then Finite (- 1) else Finite 0)"

definition clear_nan :: "f32 \<Rightarrow> f32" where
  "clear_nan x = (if x = NaN then Finite 0 else x)"

definition cmul :: "cplx \<Rightarrow> cplx \<Rightarrow> cplx" where
  "cmul u v =
     (let a = fst u; b = snd u; c = fst v; d = snd v;
          ac = fmul a c; bd = fmul b d; ad = fmul a d; bc = fmul b c;
          x = fsub ac bd;
          y = fadd ad bc
      in if x = NaN \<and> y = NaN then
           let r1 = (is_inf a \<or> is_inf b);
               a1 = (if r1 then box_inf a else a);
               b1 = (if r1 then box_inf b else b);
               c1 = (if r1 then clear_nan c else c);
               d1 = (if r1 then clear_nan d else d);
               r2 = (is_inf c1 \<or> is_inf d1);
               c2 = (if r2 then box_inf c1 else c1);
               d2 = (if r2 then box_inf d1 else d1);
               a2 = (if r2 then clear_nan a1 else a1);
               b2 = (if r2 then clear_nan b1 else b1);
               r3 = (\<not> (r1 \<or> r2) \<and> (is_inf ac \<or> is_inf bd \<or> is_inf ad \<or> is_inf bc));
               a3 = (if r3 then clear_nan a2 else a2);
               b3 = (if r3 then clear_nan b2 else b2);
               c3 = (if r3 then clear_nan c2 else c2);
               d3 = (if r3 then clear_nan d2 else d2)
           in if r1 \<or> r2 \<or> r3
              then (fmul PosInf (fsub (fmul a3 c3) (fmul b3 d3)),
                    fmul PosInf (fadd (fmul a3 d3) (fmul b3 c3)))
              else (x, y)
         else (x, y))"

definition cscale :: "cplx \<Rightarrow> f32 \<Rightarrow> cplx" where
  "cscale z s = (fmul (fst z) s, fmul (snd z) s)"

record StftProcessor =
  mWin :: "f32 list"
  mHopBuf :: "f32 list"
  mHopFill :: int
  mHist384 :: "f32 list"
  mFFTIn :: "cplx list"
  mFFTOut :: "cplx list"
  mTime512 :: "f32 list"
  mTimeWin :: "f32 list"
  mOlaBuf :: "f32 list"
  mNormBuf :: "f32 list"
  mOlaWrite :: "64 word"
  mOlaRead :: "64 word"
  mOlaMask :: "64 word"
  mAvail :: "64 word"
  mPushed :: "64 word"
  mPopped :: "64 word"
  mHops :: "64 word"

text \<open>The constructor; \<^verbatim>\<open>size_t\<close> has 64 bits.\<close>

definition StftProcessor_new :: "libm \<Rightarrow> StftProcessor" where
  "StftProcessor_new m =
     \<lparr>mWin = map (\<lambda>i. hann512 m i kNFFT) [0..<kNFFT],
      mHopBuf = replicate (nat kHOP) (Finite 0),
      mHopFill = 0,
      mHist384 = replicate 384 (Finite 0),
      mFFTIn = replicate kNFFT (Finite 0, Finite 0),
      mFFTOut = replicate kNFFT (Finite 0, Finite 0),
      mTime512 = replicate kNFFT (Finite 0),
      mTimeWin = replicate kNFFT (Finite 0),
      mOlaBuf = replicate (2 ^ 15) (Finite 0),
      mNormBuf = replicate (2 ^ 15) (Finite 0),
      mOlaWrite = 0,
      mOlaRead = 0,
      mOlaMask = 2 ^ 15 - 1,
      mAvail = 0,
      mPushed = 0,
      mPopped = 0,
      mHops = 0\<rparr>"

subsection \<open>The radix-2 transform\<close>

text \<open>The inner loop \<^verbatim>\<open>for (; j & bit; bit >>= 1) j ^= bit\<close> of the bit reversal.\<close>

function bitrev_inner :: "nat \<Rightarrow> nat \<Rightarrow> nat \<times> nat" where
  "bitrev_inner j b = (if j AND b \<noteq> 0 then bitrev_inner (j XOR b) (drop_bit 1 b) else (j, b))"
  by pat_completeness auto
termination
proof (relation "measure (\<lambda>(j, b). b)")
  show "wf (measure (\<lambda>(j, b). b))"
    by simp
next
  fix j b :: nat
  assume "j AND b \<noteq> 0"
  then have "b \<noteq> 0"
    by (cases "b = 0") simp_all
  then show "((j XOR b, drop_bit 1 b), j, b) \<in> measure (\<lambda>(j, b). b)"
    by (simp add: drop_bit_eq_div)
qed

declare bitrev_inner.simps [simp del]

definition bitrev_step :: "nat \<Rightarrow> nat \<Rightarrow> nat \<times> cplx list \<Rightarrow> nat \<times> cplx list" where
  "bitrev_step n i ja =
     (let r = bitrev_inner (fst ja) (drop_bit 1 n);
          j = fst r XOR snd r;
          a = snd ja
      in (j, if i < j then a[i := a ! j, j := a ! i] else a))"

definition bit_reverse :: "cplx list \<Rightarrow> cplx list" where
  "bit_reverse a = snd (fold (bitrev_step (length a)) [1..<length a] (0, a))"

text \<open>One butterfly, the loop over \<open>k\<close>, the loop over the blocks, the loop over the stages.\<close>

definition butterfly :: "cplx \<Rightarrow> nat \<Rightarrow> nat \<Rightarrow> nat \<Rightarrow> cplx \<times> cplx list \<Rightarrow> cplx \<times> cplx list" where
  "butterfly wlen i half k wa =
     (let w = fst wa; a = snd wa;
          u = a ! (i + k);
          v = cmul (a ! (i + k + half)) w
      in (cmul w wlen, a[i + k := cadd u v, i + k + half := csub u v]))"

definition fft_block :: "cplx \<Rightarrow> nat \<Rightarrow> nat \<Rightarrow> cplx list \<Rightarrow> cplx list" where
  "fft_block wlen len i a =
     snd (fold (butterfly wlen i (drop_bit 1 len)) [0..<drop_bit 1 len] ((Finite 1, Finite 0), a))"

definition fft_stage :: "libm \<Rightarrow> bool \<Rightarrow> nat \<Rightarrow> nat \<Rightarrow> cplx list \<Rightarrow> cplx list" where
  "fft_stage m inv_flag n len a =
     (let ang = fdiv (fmul (if inv_flag then Finite 2 else Finite (- 2)) pi_f32) (float_of_nat len);
          wlen = (cosf m ang, sinf m ang)
      in fold (fft_block wlen len) (map (\<lambda>q. q * len) [0..<(n + len - 1) div len]) a)"

function fft_stages :: "libm \<Rightarrow> bool \<Rightarrow> nat \<Rightarrow> nat \<Rightarrow> cplx list \<Rightarrow> cplx list" where
  "fft_stages m inv_flag n len a =
     (if 0 < len \<and> len \<le> n
      then fft_stages m inv_flag n (push_bit 1 len) (fft_stage m inv_flag n len a)
      else a)"
  by pat_completeness auto
termination
  by (relation "measure (\<lambda>(m, inv_flag, n, len, a). n + 1 - len)") (auto simp: push_bit_eq_mult)

declare fft_stages.simps [simp del]

text \<open>
  \<open>fft\<close>: the argument \<open>inv_flag\<close> is the parameter \<^verbatim>\<open>inverse\<close> of the source. The stage loop
  starts at 2; its guard \<open>0 < len\<close> is true throughout.
\<close>

definition fft :: "libm \<Rightarrow> cplx list \<Rightarrow> bool \<Rightarrow> cplx list" where
  "fft m a inv_flag =
     (let n = length a;
          a1 = bit_reverse a;
          a2 = fft_stages m inv_flag n 2 a1
      in if inv_flag then map (\<lambda>z. cscale z (fdiv (Finite 1) (float_of_nat n))) a2 else a2)"

subsection \<open>Overlap-add and the two public operations\<close>

definition ola_index :: "StftProcessor \<Rightarrow> 64 word \<Rightarrow> nat \<Rightarrow> nat" where
  "ola_index s base i = unat ((base + of_nat i) AND mOlaMask s)"

definition olaAdd_step :: "StftProcessor \<Rightarrow> f32 list \<Rightarrow> nat \<Rightarrow> f32 list \<times> f32 list \<Rightarrow> f32 list \<times> f32 list" where
  "olaAdd_step s block512 i on =
     (let idx = ola_index s (mOlaWrite s) i; ola = fst on; norm = snd on
      in (ola[idx := fadd (ola ! idx) (block512 ! i)],
          norm[idx := fadd (norm ! idx) (fmul (mWin s ! i) (mWin s ! i))]))"

definition olaAdd :: "StftProcessor \<Rightarrow> f32 list \<Rightarrow> StftProcessor" where
  "olaAdd s block512 =
     (let on = fold (olaAdd_step s block512) [0..<kNFFT] (mOlaBuf s, mNormBuf s)
      in s\<lparr>mOlaBuf := fst on, mNormBuf := snd on,
           mOlaWrite := (mOlaWrite s + word_of_int kHOP) AND mOlaMask s\<rparr>)"

definition processOneHop :: "libm \<Rightarrow> StftProcessor \<Rightarrow> StftProcessor" where
  "processOneHop m s =
     (let t0 = replicate (length (mTime512 s)) (Finite 0);
          t1 = memcpy t0 32 (mHist384 s) 384;
          t2 = memcpy t1 (32 + 384) (mHopBuf s) (nat kHOP);
          tw = map (\<lambda>i. fmul (t2 ! i) (mWin s ! i)) [0..<kNFFT];
          fin = map (\<lambda>i. (tw ! i, Finite 0)) [0..<kNFFT];
          fout = fft m fin False;
          y = fft m fout True;
          tw2 = map (\<lambda>i. fmul (fst (y ! i)) (mWin s ! i)) [0..<kNFFT];
          s1 = olaAdd (s\<lparr>mTime512 := t2, mTimeWin := tw2, mFFTIn := fin, mFFTOut := fout\<rparr>) tw2
      in s1\<lparr>mAvail := mAvail s1 + word_of_int kHOP, mHops := mHops s1 + 1\<rparr>)"

text \<open>
  The body of the \<^verbatim>\<open>while (idx < frames)\<close> loop of \<^verbatim>\<open>pushTimeDomain\<close>: stage \<open>take\<close> samples,
  and when the hop buffer is full process it and roll the history. It returns the new state
  and \<open>take\<close>.
\<close>

definition push_step :: "libm \<Rightarrow> StftProcessor \<Rightarrow> f32 list \<Rightarrow> int \<Rightarrow> int \<Rightarrow> StftProcessor \<times> int" where
  "push_step m s mono16 frames idx =
     (let need = kHOP - mHopFill s;
          take_n = min need (frames - idx);
          s1 = s\<lparr>mHopBuf := memcpy (mHopBuf s) (nat (mHopFill s)) (drop (nat idx) mono16) (nat take_n),
                 mHopFill := mHopFill s + take_n\<rparr>
      in if mHopFill s1 = kHOP then
           let s2 = (processOneHop m s1)\<lparr>mHopFill := 0\<rparr>;
               h1 = memcpy (mHist384 s2) 0 (drop (nat kHOP) (mHist384 s2)) (384 - nat kHOP);
               h2 = memcpy h1 (384 - nat kHOP) (mHopBuf s2) (nat kHOP)
           in (s2\<lparr>mHist384 := h2\<rparr>, take_n)
         else (s1, take_n))"

text \<open>
  The loop itself. From a state with \<open>mHopFill\<close> above \<^verbatim>\<open>kHOP\<close>, which no run reaches, the
  source makes no progress; the model then has no result.
\<close>

partial_function (option) push_loop ::
  "libm \<Rightarrow> StftProcessor \<Rightarrow> f32 list \<Rightarrow> int \<Rightarrow> int \<Rightarrow> StftProcessor option" where
  "push_loop m s mono16 frames idx =
     (if idx < frames
      then push_loop m (fst (push_step m s mono16 frames idx)) mono16 frames
             (idx + snd (push_step m s mono16 frames idx))
      else Some s)"

definition pushTimeDomain :: "libm \<Rightarrow> StftProcessor \<Rightarrow> f32 list \<Rightarrow> int \<Rightarrow> StftProcessor option" where
  "pushTimeDomain m s mono16 frames =
     push_loop m (s\<lparr>mPushed := mPushed s + word_of_int frames\<rparr>) mono16 frames 0"

definition pop_step ::
  "StftProcessor \<Rightarrow> nat \<Rightarrow> f32 list \<times> f32 list \<times> f32 list \<Rightarrow> f32 list \<times> f32 list \<times> f32 list" where
  "pop_step s i st =
     (let out16 = fst st; ola = fst (snd st); norm = snd (snd st);
          idx = ola_index s (mOlaRead s) i;
          n = norm ! idx
      in (out16[i := (if fgt n kEps then fdiv (ola ! idx) n else Finite 0)],
          ola[idx := Finite 0],
          norm[idx := Finite 0]))"

definition popTimeDomain :: "StftProcessor \<Rightarrow> f32 list \<Rightarrow> int \<Rightarrow> (int \<times> f32 list) \<times> StftProcessor" where
  "popTimeDomain s out16 maxFrames =
     (let want = min maxFrames (to_int32 (mAvail s));
          st = fold (pop_step s) [0..<nat want] (out16, mOlaBuf s, mNormBuf s)
      in ((want, fst st),
          s\<lparr>mOlaBuf := fst (snd st),
            mNormBuf := snd (snd st),
            mOlaRead := (mOlaRead s + word_of_int want) AND mOlaMask s,
            mAvail := mAvail s - word_of_int want,
            mPopped := mPopped s + word_of_int want\<rparr>))"

definition framesPushed :: "StftProcessor \<Rightarrow> 64 word" where
  "framesPushed s = mPushed s"

definition framesPopped :: "StftProcessor \<Rightarrow> 64 word" where
  "framesPopped s = mPopped s"

definition hopsProcessed :: "StftProcessor \<Rightarrow> 64 word" where
  "hopsProcessed s = mHops s"
text \<open>
  The states an engine passes through: the constructed one, and those that a call of
  \<open>pushTimeDomain\<close> or \<open>popTimeDomain\<close> leads to. A call has a count that is not negative and a
  buffer that holds that many samples, and the 64-bit total of pushed samples does not wrap.
  The ring of 32768 slots is not to be overrun; of this the relation keeps only what the
  counters need, that the pending count found by a pop fits the \<^verbatim>\<open>int\<close> it is converted to.
\<close>

inductive reach :: "libm \<Rightarrow> StftProcessor \<Rightarrow> bool" for m :: libm where
  reach_new: "reach m (StftProcessor_new m)"
| reach_push:
    "reach m s \<Longrightarrow> 0 \<le> frames \<Longrightarrow> nat frames \<le> length mono16 \<Longrightarrow>
     uint (mPushed s) + frames < 2 ^ 64 \<Longrightarrow>
     pushTimeDomain m s mono16 frames = Some s' \<Longrightarrow> reach m s'"
| reach_pop:
    "reach m s \<Longrightarrow> 0 \<le> maxFrames \<Longrightarrow> nat maxFrames \<le> length out16 \<Longrightarrow>
     uint (mAvail s) < 2 ^ 31 \<Longrightarrow> reach m (snd (popTimeDomain s out16 maxFrames))"

text \<open>What the counters of such a state satisfy, as integers.\<close>

definition stft_inv :: "StftProcessor \<Rightarrow> bool" where
  "stft_inv s \<longleftrightarrow>
     0 \<le> mHopFill s \<and> mHopFill s < 96
     \<and> uint (mPushed s) = 96 * uint (mHops s) + mHopFill s
     \<and> uint (mPopped s) + uint (mAvail s) = 96 * uint (mHops s)"

text \<open>
  For running the engine on concrete calls: a C library whose two functions return zero
  everywhere (the counters do not depend on it), and the state after a call of
  \<open>pushTimeDomain\<close> with \<open>frames\<close> samples of silence.
\<close>

definition null_libm :: libm where
  "null_libm = \<lparr>cosf = (\<lambda>x. Finite 0), sinf = (\<lambda>x. Finite 0)\<rparr>"

definition pushed :: "StftProcessor \<Rightarrow> int \<Rightarrow> StftProcessor" where
  "pushed s frames = the (pushTimeDomain null_libm s (replicate (nat frames) (Finite 0)) frames)"




section \<open>Basic facts\<close>

lemma i32_id: "- (2 ^ 31) \<le> x \<Longrightarrow> x < 2 ^ 31 \<Longrightarrow> i32 x = x"
  by (simp add: i32_def)

lemma third_value: "third = Finite (11184811 / 33554432)"
  by code_simp

lemma f32_round_zero: "f32_round 0 = Finite 0"
  by (simp add: f32_round_def)

lemma pow2_above_int_min: "- (2 ^ 31) \<le> (2::int) ^ k"
proof -
  have "- (2 ^ 31) \<le> (0::int)"
    by simp
  also have "(0::int) \<le> 2 ^ k"
    by simp
  finally show ?thesis .
qed

lemma i32_id_nonneg: "0 \<le> x \<Longrightarrow> x < 2 ^ 31 \<Longrightarrow> i32 x = x"
  by (rule i32_id) simp_all

lemma pow2_le_2_30: "k \<le> 30 \<Longrightarrow> (2::int) ^ k \<le> 2 ^ 30"
  by (rule power_increasing) simp_all

lemma pow2_lt_2_31: "k \<le> 30 \<Longrightarrow> (2::int) ^ k < 2 ^ 31"
  by (rule power_strict_increasing) simp_all
section \<open>Resampler3x: properties\<close>

lemma fold_update_length:
  "length (fold (\<lambda>g out. out[g := f g]) gs out) = length out"
  by (induction gs arbitrary: out) auto

lemma fold_update_upt_nth:
  "n \<le> length out \<Longrightarrow>
   fold (\<lambda>g out. out[g := f g]) [0..<n] out ! k = (if k < n then f k else out ! k)"
proof (induction n arbitrary: k)
  case 0
  then show ?case by simp
next
  case (Suc n)
  then have "n < length (fold (\<lambda>g out. out[g := f g]) [0..<n] out)"
    by (simp add: fold_update_length)
  with Suc show ?case
    by (auto simp: nth_list_update less_Suc_eq)
qed

subsection \<open>Down by three\<close>

lemma c_div_nonneg: "0 \<le> a \<Longrightarrow> c_div a 3 = a div 3"
  by (cases "a = 0") (simp_all add: c_div_def)

lemma processDown3_count:
  "0 \<le> inFrames \<Longrightarrow>
   fst (processDown3 inp inFrames out outMaxFrames) = min (inFrames div 3) outMaxFrames"
  by (simp add: processDown3_def Let_def c_div_nonneg)

lemma processDown3_nth:
  assumes "0 \<le> inFrames"
    and "min (inFrames div 3) outMaxFrames \<le> int (length out)"
  shows "snd (processDown3 inp inFrames out outMaxFrames) ! g =
           (if int g < min (inFrames div 3) outMaxFrames then down3_sample inp g else out ! g)"
proof -
  let ?p = "min (inFrames div 3) outMaxFrames"
  have "nat ?p \<le> length out"
    using assms(2) by linarith
  then have "fold (\<lambda>g out. out[g := down3_sample inp g]) [0..<nat ?p] out ! g =
      (if g < nat ?p then down3_sample inp g else out ! g)"
    by (rule fold_update_upt_nth)
  moreover have "g < nat ?p \<longleftrightarrow> int g < ?p"
    by linarith
  ultimately show ?thesis
    using assms(1) by (simp add: processDown3_def Let_def c_div_nonneg)
qed

lemma down3_sample_take:
  "3 * g + 2 < n \<Longrightarrow> down3_sample (take n inp) g = down3_sample inp g"
  by (simp add: down3_sample_def Let_def mult.commute)

lemma fold_update_cong:
  "(\<And>g. g \<in> set gs \<Longrightarrow> f g = f' g) \<Longrightarrow>
   fold (\<lambda>g out. out[g := f g]) gs out = fold (\<lambda>g out. out[g := f' g]) gs out"
  by (induction gs arbitrary: out) auto

lemma processDown3_prefix:
  assumes "0 \<le> inFrames"
    and "take (nat (3 * (inFrames div 3))) inp' = take (nat (3 * (inFrames div 3))) inp"
  shows "processDown3 inp' inFrames out outMaxFrames = processDown3 inp inFrames out outMaxFrames"
proof -
  let ?n = "nat (3 * (inFrames div 3))"
  let ?p = "nat (min (inFrames div 3) outMaxFrames)"
  have "down3_sample inp' g = down3_sample inp g" if "g \<in> set [0..<?p]" for g
  proof -
    from that assms(1) have "3 * g + 2 < ?n"
      by auto
    then have "down3_sample (take ?n inp') g = down3_sample inp' g"
      and "down3_sample (take ?n inp) g = down3_sample inp g"
      by (rule down3_sample_take)+
    with assms(2) show ?thesis
      by simp
  qed
  then have "fold (\<lambda>g out. out[g := down3_sample inp' g]) [0..<?p] out =
      fold (\<lambda>g out. out[g := down3_sample inp g]) [0..<?p] out"
    by (rule fold_update_cong)
  then show ?thesis
    using assms(1) by (simp add: processDown3_def Let_def c_div_nonneg)
qed

text \<open>
  C10. When the down-by-3 path is handed a frame count \<open>n \<ge> 0\<close>, a multiple of three or not, it
  returns \<open>min (n div 3) outMaxFrames\<close>; output sample \<open>g\<close> is computed from the complete
  triplet \<open>3g, 3g+1, 3g+2\<close>; the resampler object is returned as it was, and the result is the
  same for any resampler state and for any input that agrees on the first \<open>3 (n div 3)\<close>
  samples: the trailing \<open>n mod 3\<close> samples are dropped and nothing is retained.
\<close>

theorem processDown3_drops_incomplete_triplet:
  assumes "0 \<le> inFrames"
    and "nat inFrames \<le> length inp"
    and "min (inFrames div 3) outMaxFrames \<le> int (length out)"
    and "mMode r = DownBy3"
  shows "fst (fst (process r inp inFrames out outMaxFrames)) = min (inFrames div 3) outMaxFrames
    \<and> (\<forall>g. int g < min (inFrames div 3) outMaxFrames \<longrightarrow>
          snd (fst (process r inp inFrames out outMaxFrames)) ! g =
            fmul (fadd (fadd (inp ! (3 * g)) (inp ! (3 * g + 1))) (inp ! (3 * g + 2))) third)
    \<and> snd (process r inp inFrames out outMaxFrames) = r
    \<and> (\<forall>r' inp'. mMode r' = DownBy3 \<and>
          take (nat (3 * (inFrames div 3))) inp' = take (nat (3 * (inFrames div 3))) inp \<longrightarrow>
          fst (process r' inp' inFrames out outMaxFrames) =
            fst (process r inp inFrames out outMaxFrames))"
proof -
  have proc: "process r' inp' inFrames out outMaxFrames = (processDown3 inp' inFrames out outMaxFrames, r')"
    if "mMode r' = DownBy3" for r' inp'
    using that by (simp add: process_def)
  have 1: "fst (fst (process r inp inFrames out outMaxFrames)) = min (inFrames div 3) outMaxFrames"
    using assms(1,4) by (simp add: proc processDown3_count)
  have 2: "snd (fst (process r inp inFrames out outMaxFrames)) ! g =
            fmul (fadd (fadd (inp ! (3 * g)) (inp ! (3 * g + 1))) (inp ! (3 * g + 2))) third"
    if "int g < min (inFrames div 3) outMaxFrames" for g
    using that assms(1,3,4) by (simp add: proc processDown3_nth down3_sample_def mult.commute)
  have 3: "snd (process r inp inFrames out outMaxFrames) = r"
    using assms(4) by (simp add: proc)
  have 4: "fst (process r' inp' inFrames out outMaxFrames) =
            fst (process r inp inFrames out outMaxFrames)"
    if "mMode r' = DownBy3" "take (nat (3 * (inFrames div 3))) inp' = take (nat (3 * (inFrames div 3))) inp"
    for r' inp'
    using that assms(1,4) processDown3_prefix[of inFrames inp' inp out outMaxFrames] by (simp add: proc)
  from 1 2 3 4 show ?thesis by blast
qed

text \<open>Witness of C10 with seven input frames: two outputs, the seventh sample is irrelevant.\<close>

theorem processDown3_drops_incomplete_triplet_witness:
  "fst (fst (process \<lparr>mMode = DownBy3, mPrevSample = Finite 0, mHadPrev = False\<rparr>
       [Finite 3, Finite 6, Finite 9, Finite 1, Finite 2, Finite 3, Finite 7] 7
       [Finite 0, Finite 0] 2)) = 2
   \<and> snd (fst (process \<lparr>mMode = DownBy3, mPrevSample = Finite 0, mHadPrev = False\<rparr>
       [Finite 3, Finite 6, Finite 9, Finite 1, Finite 2, Finite 3, Finite 7] 7
       [Finite 0, Finite 0] 2)) ! 1 = fmul (fadd (fadd (Finite 1) (Finite 2)) (Finite 3)) third
   \<and> fst (process \<lparr>mMode = DownBy3, mPrevSample = Finite 5, mHadPrev = True\<rparr>
       [Finite 3, Finite 6, Finite 9, Finite 1, Finite 2, Finite 3, Finite 8, Finite 4] 7
       [Finite 0, Finite 0] 2)
     = fst (process \<lparr>mMode = DownBy3, mPrevSample = Finite 0, mHadPrev = False\<rparr>
       [Finite 3, Finite 6, Finite 9, Finite 1, Finite 2, Finite 3, Finite 7] 7
       [Finite 0, Finite 0] 2)"
proof -
  let ?r = "\<lparr>mMode = DownBy3, mPrevSample = Finite 0, mHadPrev = False\<rparr>"
  let ?inp = "[Finite 3, Finite 6, Finite 9, Finite 1, Finite 2, Finite 3, Finite 7]"
  let ?out = "[Finite 0, Finite 0]"
  have h1: "(0::int) \<le> 7" by simp
  have h2: "nat 7 \<le> length ?inp" by simp
  have h3: "min ((7::int) div 3) 2 \<le> int (length ?out)" by simp
  have h4: "mMode ?r = DownBy3" by simp
  note t = processDown3_drops_incomplete_triplet [OF h1 h2 h3 h4]
  have m: "min ((7::int) div 3) 2 = 2" by simp
  from t have a: "fst (fst (process ?r ?inp 7 ?out 2)) = 2"
    unfolding m by blast
  from t have "int 1 < min ((7::int) div 3) 2 \<longrightarrow>
      snd (fst (process ?r ?inp 7 ?out 2)) ! 1 =
        fmul (fadd (fadd (?inp ! (3 * 1)) (?inp ! (3 * 1 + 1))) (?inp ! (3 * 1 + 2))) third"
    by blast
  then have b: "snd (fst (process ?r ?inp 7 ?out 2)) ! 1 =
      fmul (fadd (fadd (Finite 1) (Finite 2)) (Finite 3)) third"
    by simp
  from t have c: "\<forall>r' inp'. mMode r' = DownBy3 \<and>
          take (nat (3 * ((7::int) div 3))) inp' = take (nat (3 * ((7::int) div 3))) ?inp \<longrightarrow>
          fst (process r' inp' 7 ?out 2) = fst (process ?r ?inp 7 ?out 2)"
    by blast
  have "fst (process \<lparr>mMode = DownBy3, mPrevSample = Finite 5, mHadPrev = True\<rparr>
       [Finite 3, Finite 6, Finite 9, Finite 1, Finite 2, Finite 3, Finite 8, Finite 4] 7 ?out 2)
       = fst (process ?r ?inp 7 ?out 2)"
    by (rule c [rule_format]) simp
  with a b show ?thesis by blast
qed

text \<open>
  C7, as the code has it. For a frame count that is a multiple of three, with room for every
  group, output sample \<open>g\<close> is the single-precision product of the single-precision sum
  \<open>(in[3g] + in[3g+1]) + in[3g+2]\<close> with the constant \<^verbatim>\<open>1.0f/3.0f\<close>. This is the mean up to
  rounding; it is not always the correctly rounded quotient by three.
\<close>

theorem processDown3_group_value:
  assumes "0 \<le> inFrames"
    and "inFrames mod 3 = 0"
    and "inFrames div 3 \<le> outMaxFrames"
    and "nat inFrames \<le> length inp"
    and "inFrames div 3 \<le> int (length out)"
    and "int g < inFrames div 3"
  shows "snd (processDown3 inp inFrames out outMaxFrames) ! g =
    fmul (fadd (fadd (inp ! (3 * g)) (inp ! (3 * g + 1))) (inp ! (3 * g + 2)))
      (fdiv (Finite 1) (Finite 3))"
  using assms by (simp add: processDown3_nth down3_sample_def third_def mult.commute)

text \<open>Witness of C7 at the group \<open>5, 0, 0\<close>.\<close>

theorem processDown3_group_value_witness:
  "snd (processDown3 [Finite 5, Finite 0, Finite 0] 3 [Finite 0] 1) ! 0 = Finite (6990507 / 4194304)"
proof -
  have "snd (processDown3 [Finite 5, Finite 0, Finite 0] 3 [Finite 0] 1) ! 0 =
    fmul (fadd (fadd ([Finite 5, Finite 0, Finite 0] ! (3 * 0)) ([Finite 5, Finite 0, Finite 0] ! (3 * 0 + 1)))
       ([Finite 5, Finite 0, Finite 0] ! (3 * 0 + 2))) (fdiv (Finite 1) (Finite 3))"
    by (rule processDown3_group_value) simp_all
  also have "\<dots> = Finite (6990507 / 4194304)"
    by code_simp
  finally show ?thesis .
qed

text \<open>
  The group \<open>5, 0, 0\<close> refutes C7 as stated: the code yields \<open>6990507 / 4194304\<close>, whereas
  the single-precision quotient \<open>5 / 3\<close> is \<open>13981013 / 8388608\<close> and the exact mean \<open>5 / 3\<close> is
  no binary32 value at all.
\<close>

theorem processDown3_exact_mean_counterexample:
  "snd (processDown3 [Finite 5, Finite 0, Finite 0] 3 [Finite 0] 1) ! 0 = Finite (6990507 / 4194304)
   \<and> fdiv (fadd (fadd (Finite 5) (Finite 0)) (Finite 0)) (Finite 3) = Finite (13981013 / 8388608)
   \<and> snd (processDown3 [Finite 5, Finite 0, Finite 0] 3 [Finite 0] 1) ! 0
       \<noteq> fdiv (fadd (fadd (Finite 5) (Finite 0)) (Finite 0)) (Finite 3)
   \<and> snd (processDown3 [Finite 5, Finite 0, Finite 0] 3 [Finite 0] 1) ! 0 \<noteq> Finite ((5 + 0 + 0) / 3)"
  by code_simp

subsection \<open>Up by three\<close>

lemma up3_guard_true:
  "(i::int) < n \<Longrightarrow> 3 * i + 3 \<le> pm \<Longrightarrow> i + 1 \<le> min n (pm div 3)"
  by (simp add: min_def) presburger

lemma up3_guard_false:
  "\<not> ((i::int) < n \<and> 3 * i + 3 \<le> pm) \<Longrightarrow> min n (pm div 3) \<le> i"
  unfolding min_def by presburger

lemma up3_loop_step:
  "i < inFrames \<and> outIdx + 3 \<le> producedMax \<Longrightarrow>
   up3_loop inp inFrames producedMax i outIdx out =
     up3_loop inp inFrames producedMax (i + 1) (outIdx + 3) (up3_step inp inFrames i outIdx out)"
  by (subst up3_loop.simps) (simp add: Let_def up3_step_def)

lemma up3_loop_stop:
  "\<not> (i < inFrames \<and> outIdx + 3 \<le> producedMax) \<Longrightarrow>
   up3_loop inp inFrames producedMax i outIdx out = (outIdx, out)"
  by (subst up3_loop.simps) (erule if_not_P)

lemma up3_loop_count:
  "0 \<le> i \<Longrightarrow> outIdx = 3 * i \<Longrightarrow>
   fst (up3_loop inp inFrames producedMax i outIdx out) = 3 * max i (min inFrames (producedMax div 3))"
proof (induction inp inFrames producedMax i outIdx out rule: up3_loop.induct)
  case (1 inp inFrames producedMax i outIdx out)
  show ?case
  proof (cases "i < inFrames \<and> outIdx + 3 \<le> producedMax")
    case True
    then have "i + 1 \<le> min inFrames (producedMax div 3)"
      unfolding "1.prems"(2) by (intro up3_guard_true) simp_all
    then have m: "max (i + 1) (min inFrames (producedMax div 3)) = max i (min inFrames (producedMax div 3))"
      by simp
    have "fst (up3_loop inp inFrames producedMax (i + 1) (outIdx + 3) (up3_step inp inFrames i outIdx out))
        = 3 * max (i + 1) (min inFrames (producedMax div 3))"
      unfolding up3_step_def
      using "1.prems" by (intro "1.IH"[OF True refl refl refl refl refl refl]) simp_all
    then show ?thesis
      unfolding m up3_loop_step[OF True] .
  next
    case False
    then have "min inFrames (producedMax div 3) \<le> i"
      unfolding "1.prems"(2) by (rule up3_guard_false)
    then show ?thesis
      unfolding up3_loop_stop[OF False] using "1.prems"(2) by simp
  qed
qed

lemma up3_triplet_nth:
  fixes j :: nat
  assumes "3 * j + 2 < length out"
    and "3 * j \<le> k" and "k < 3 * j + 3"
  shows "out[3 * j := a, 3 * j + 1 := b, 3 * j + 2 := c] ! k =
    (if k mod 3 = 0 then a else if k mod 3 = 1 then b else c) \<and> k div 3 = j"
proof -
  have d: "k div 3 = j"
    using assms(2,3) by presburger
  have m0: "k mod 3 = 0 \<longleftrightarrow> k = 3 * j"
    using assms(2,3) by presburger
  have m1: "k mod 3 = 1 \<longleftrightarrow> k = 3 * j + 1"
    using assms(2,3) by presburger
  have v: "out[3 * j := a, 3 * j + 1 := b, 3 * j + 2 := c] ! k =
      (if k = 3 * j then a else if k = 3 * j + 1 then b else c)"
    using assms by (auto simp: nth_list_update)
  show ?thesis
    unfolding v m0 m1 using d by simp
qed

lemma up3_triplet_other:
  fixes j :: nat
  assumes "k < 3 * j \<or> 3 * j + 3 \<le> k"
  shows "out[3 * j := a, 3 * j + 1 := b, 3 * j + 2 := c] ! k = out ! k"
  using assms by auto

lemma up3_step_length: "length (up3_step inp inFrames i outIdx out) = length out"
  by (simp add: up3_step_def)

lemma up3_step_nth_nat:
  assumes "3 * j + 2 < length out"
  shows "up3_step inp inFrames (int j) (3 * int j) out ! k =
    (if 3 * j \<le> k \<and> k < 3 * j + 3 then up3_value inp inFrames k else out ! k)"
proof -
  have idx: "nat (3 * int j) = 3 * j" "nat (3 * int j + 1) = 3 * j + 1"
    "nat (3 * int j + 2) = 3 * j + 2" "nat (int j + 1) = j + 1" "nat (int j) = j"
    by simp_all
  show ?thesis
  proof (cases "3 * j \<le> k \<and> k < 3 * j + 3")
    case True
    then have "3 * j \<le> k" "k < 3 * j + 3"
      by simp_all
    from up3_triplet_nth[OF assms this] True show ?thesis
      unfolding up3_step_def idx up3_value_def Let_def by simp
  next
    case False
    then have o: "k < 3 * j \<or> 3 * j + 3 \<le> k"
      by auto
    show ?thesis
      unfolding up3_step_def idx if_not_P[OF False] by (rule up3_triplet_other[OF o])
  qed
qed

lemma up3_step_nth:
  assumes "0 \<le> i" and "3 * i + 2 < int (length out)"
  shows "up3_step inp inFrames i (3 * i) out ! k =
    (if 3 * i \<le> int k \<and> int k < 3 * (i + 1) then up3_value inp inFrames k else out ! k)"
proof -
  define j where "j = nat i"
  have i: "i = int j"
    using assms(1) by (simp add: j_def)
  have len: "3 * j + 2 < length out"
    using assms(2) unfolding i by linarith
  have c: "(3 * int j \<le> int k \<and> int k < 3 * (int j + 1)) \<longleftrightarrow> (3 * j \<le> k \<and> k < 3 * j + 3)"
    by auto
  show ?thesis
    unfolding i c by (rule up3_step_nth_nat[OF len])
qed

lemma up3_loop_nth:
  "0 \<le> i \<Longrightarrow> outIdx = 3 * i \<Longrightarrow>
   3 * max i (min inFrames (producedMax div 3)) \<le> int (length out) \<Longrightarrow>
   snd (up3_loop inp inFrames producedMax i outIdx out) ! k =
     (if 3 * i \<le> int k \<and> int k < 3 * max i (min inFrames (producedMax div 3))
      then up3_value inp inFrames k else out ! k)"
proof (induction inp inFrames producedMax i outIdx out arbitrary: k rule: up3_loop.induct)
  case (1 inp inFrames producedMax i outIdx out)
  let ?m = "min inFrames (producedMax div 3)"
  show ?case
  proof (cases "i < inFrames \<and> outIdx + 3 \<le> producedMax")
    case False
    then have "?m \<le> i"
      unfolding "1.prems"(2) by (rule up3_guard_false)
    then have "max i ?m = i"
      by simp
    then show ?thesis
      unfolding up3_loop_stop[OF False] by auto
  next
    case True
    then have le: "i + 1 \<le> ?m"
      unfolding "1.prems"(2) by (intro up3_guard_true) simp_all
    then have m: "max (i + 1) ?m = ?m" "max i ?m = ?m"
      by simp_all
    let ?out3 = "up3_step inp inFrames i outIdx out"
    have ih: "snd (up3_loop inp inFrames producedMax (i + 1) (outIdx + 3) ?out3) ! k =
       (if 3 * (i + 1) \<le> int k \<and> int k < 3 * max (i + 1) ?m
        then up3_value inp inFrames k else ?out3 ! k)"
      unfolding up3_step_def
      using "1.prems" le
      by (intro "1.IH"[OF True refl refl refl refl refl refl]) (simp_all add: m)
    have bound: "3 * i + 2 < int (length out)"
      using "1.prems"(3) le unfolding m by linarith
    have st: "?out3 ! k =
      (if 3 * i \<le> int k \<and> int k < 3 * (i + 1) then up3_value inp inFrames k else out ! k)"
      unfolding "1.prems"(2) by (rule up3_step_nth[OF "1.prems"(1) bound])
    show ?thesis
      unfolding up3_loop_step[OF True] ih st m using le by auto
  qed
qed


lemma min_times3_div3: "min (3 * n) m div 3 = min (n::int) (m div 3)"
  unfolding min_def by presburger

lemma hold_step_zero: "fmul (fsub (Finite a) (Finite a)) third = Finite 0"
  by (simp add: fsub_def third_value f32_round_zero)

text \<open>
  C6, as the code has it. For an input of \<open>N \<ge> 1\<close> frames (with \<open>3N\<close> in the range of
  \<^verbatim>\<open>int\<close>) and any \<open>outMaxFrames\<close>, only whole triplets are written: the returned length is
  \<open>3 * max 0 (min N (outMaxFrames div 3))\<close>, the largest non-negative multiple of three below
  \<open>min (3N) outMaxFrames\<close>. Triplet \<open>i\<close> is \<open>x\<^sub>i\<close>, \<open>x\<^sub>i + d\<close>, \<open>x\<^sub>i + 2d\<close> in single precision with
  \<open>d = (x\<^sub>i\<^sub>+\<^sub>1 - x\<^sub>i) * (1.0f/3.0f)\<close>; for the last input the step is \<open>(x\<^sub>i - x\<^sub>i) * (1.0f/3.0f)\<close>,
  which is zero for a finite sample, and the sample is held.
\<close>

theorem processUp3_whole_triplets:
  assumes "1 \<le> inFrames"
    and "3 * inFrames < 2 ^ 31"
    and "nat inFrames \<le> length inp"
    and "3 * max 0 (min inFrames (outMaxFrames div 3)) \<le> int (length out)"
  shows "fst (fst (processUp3 r inp inFrames out outMaxFrames)) =
      3 * max 0 (min inFrames (outMaxFrames div 3))
    \<and> (\<forall>i. int i < max 0 (min inFrames (outMaxFrames div 3)) \<longrightarrow>
         (let x0 = inp ! i;
              x1 = (if int i + 1 < inFrames then inp ! (i + 1) else x0);
              d = fmul (fsub x1 x0) third;
              out' = snd (fst (processUp3 r inp inFrames out outMaxFrames))
          in out' ! (3 * i) = x0 \<and> out' ! (3 * i + 1) = fadd x0 d
             \<and> out' ! (3 * i + 2) = fadd x0 (fmul (Finite 2) d)))
    \<and> (\<forall>i a. int i < max 0 (min inFrames (outMaxFrames div 3)) \<and> int i = inFrames - 1
           \<and> inp ! i = Finite a \<and> f32_round a = Finite a \<longrightarrow>
         (let out' = snd (fst (processUp3 r inp inFrames out outMaxFrames))
          in fmul (fsub (inp ! i) (inp ! i)) third = Finite 0
             \<and> out' ! (3 * i) = Finite a \<and> out' ! (3 * i + 1) = Finite a
             \<and> out' ! (3 * i + 2) = Finite a))"
proof -
  let ?c = "max 0 (min inFrames (outMaxFrames div 3))"
  let ?res = "processUp3 r inp inFrames out outMaxFrames"
  have need: "i32 (inFrames * 3) = 3 * inFrames"
    using assms(1,2) by (simp add: i32_id mult.commute)
  have unf: "fst ?res = up3_loop inp inFrames (min (3 * inFrames) outMaxFrames) 0 0 out"
    using assms(1) by (simp add: processUp3_def Let_def need)
  have cnt: "fst (fst ?res) = 3 * ?c"
    unfolding unf by (subst up3_loop_count) (simp_all add: min_times3_div3)
  have nth: "snd (fst ?res) ! k = (if int k < 3 * ?c then up3_value inp inFrames k else out ! k)" for k
    unfolding unf using assms(4)
    by (subst up3_loop_nth) (simp_all add: min_times3_div3)
  have trip: "snd (fst ?res) ! (3 * i) = inp ! i
      \<and> snd (fst ?res) ! (3 * i + 1) = fadd (inp ! i)
           (fmul (fsub (if int i + 1 < inFrames then inp ! (i + 1) else inp ! i) (inp ! i)) third)
      \<and> snd (fst ?res) ! (3 * i + 2) = fadd (inp ! i) (fmul (Finite 2)
           (fmul (fsub (if int i + 1 < inFrames then inp ! (i + 1) else inp ! i) (inp ! i)) third))"
    if "int i < ?c" for i
  proof -
    have d: "(3 * i) div 3 = i" "(3 * i + 1) div 3 = i" "(3 * i + 2) div 3 = i"
      by presburger+
    have m: "(3 * i) mod 3 = 0" "(3 * i + 1) mod 3 = 1" "(3 * i + 2) mod 3 = 2"
      by presburger+
    have lt: "int (3 * i) < 3 * ?c" "int (3 * i + 1) < 3 * ?c" "int (3 * i + 2) < 3 * ?c"
      using that by linarith+
    show ?thesis
      unfolding nth if_P[OF lt(1)] if_P[OF lt(2)] if_P[OF lt(3)] up3_value_def Let_def d m
      by simp
  qed
  have hold: "fmul (fsub (inp ! i) (inp ! i)) third = Finite 0
      \<and> snd (fst ?res) ! (3 * i) = Finite a \<and> snd (fst ?res) ! (3 * i + 1) = Finite a
      \<and> snd (fst ?res) ! (3 * i + 2) = Finite a"
    if "int i < ?c" "int i = inFrames - 1" "inp ! i = Finite a" "f32_round a = Finite a" for i a
  proof -
    have last: "\<not> int i + 1 < inFrames"
      using that(2) by simp
    have two: "fmul (Finite 2) (Finite 0) = Finite 0"
      by (simp add: f32_round_zero)
    show ?thesis
      using trip[OF that(1)] unfolding if_not_P[OF last] that(3) hold_step_zero two
      by (simp add: that(4))
  qed
  from cnt trip hold show ?thesis
    unfolding Let_def by blast
qed

text \<open>Witness of C6: two frames into a buffer of seven, six samples written, the last one held.\<close>

theorem processUp3_whole_triplets_witness:
  "fst (fst (processUp3 \<lparr>mMode = UpBy3, mPrevSample = Finite 0, mHadPrev = False\<rparr>
      [Finite 0, Finite 5] 2 (replicate 7 (Finite 0)) 7)) = 6
   \<and> snd (fst (processUp3 \<lparr>mMode = UpBy3, mPrevSample = Finite 0, mHadPrev = False\<rparr>
      [Finite 0, Finite 5] 2 (replicate 7 (Finite 0)) 7)) ! (3 * 1 + 2) = Finite 5"
proof -
  let ?r = "\<lparr>mMode = UpBy3, mPrevSample = Finite 0, mHadPrev = False\<rparr>"
  let ?inp = "[Finite 0, Finite 5]"
  let ?out = "replicate 7 (Finite 0)"
  have c: "max 0 (min (2::int) (7 div 3)) = 2" by simp
  have h1: "(1::int) \<le> 2" by simp
  have h2: "3 * (2::int) < 2 ^ 31" by simp
  have h3: "nat 2 \<le> length ?inp" by simp
  have h4: "3 * max 0 (min (2::int) (7 div 3)) \<le> int (length ?out)" by simp
  note t = processUp3_whole_triplets [OF h1 h2 h3 h4, of ?r, unfolded c Let_def]
  from t have a: "fst (fst (processUp3 ?r ?inp 2 ?out 7)) = 3 * 2"
    by blast
  from t have "\<forall>i a. int i < 2 \<and> int i = 2 - 1 \<and> ?inp ! i = Finite a \<and> f32_round a = Finite a \<longrightarrow>
      snd (fst (processUp3 ?r ?inp 2 ?out 7)) ! (3 * i + 2) = Finite a"
    by blast
  then have "int 1 < 2 \<and> int 1 = 2 - 1 \<and> ?inp ! 1 = Finite 5 \<and> f32_round 5 = Finite 5 \<longrightarrow>
      snd (fst (processUp3 ?r ?inp 2 ?out 7)) ! (3 * 1 + 2) = Finite 5"
    by blast
  moreover have "f32_round 5 = Finite 5"
    by code_simp
  ultimately have b: "snd (fst (processUp3 ?r ?inp 2 ?out 7)) ! (3 * 1 + 2) = Finite 5"
    by simp
  from a b show ?thesis by simp
qed

text \<open>
  C6 as stated fails: with two input frames and \<open>outMaxFrames = 5\<close> the code returns 3, not
  \<open>min 6 5 = 5\<close>; and the middle sample of the triplet \<open>0 \<rightarrow> 5\<close> is \<open>5 * (1.0f/3.0f)\<close>, which
  differs from the single-precision quotient \<open>5 / 3\<close>.
\<close>

theorem processUp3_clamp_counterexample:
  "fst (fst (processUp3 \<lparr>mMode = UpBy3, mPrevSample = Finite 0, mHadPrev = False\<rparr>
      [Finite 0, Finite 5] 2 [Finite 0, Finite 0, Finite 0, Finite 0, Finite 0] 5)) = 3
   \<and> min (3 * 2) (5::int) = 5
   \<and> snd (fst (processUp3 \<lparr>mMode = UpBy3, mPrevSample = Finite 0, mHadPrev = False\<rparr>
      [Finite 0, Finite 5] 2 [Finite 0, Finite 0, Finite 0, Finite 0, Finite 0] 5)) ! 1
       = Finite (6990507 / 4194304)
   \<and> fadd (Finite 0) (fdiv (fsub (Finite 5) (Finite 0)) (Finite 3)) = Finite (13981013 / 8388608)"
  by code_simp

section \<open>RingBuffer: properties\<close>

subsection \<open>nextPow2\<close>

lemma smear_step:
  fixes x y :: int
  assumes "\<And>n. bit y n \<longleftrightarrow> (\<exists>d<k. bit x (n + d))"
  shows "bit (y OR drop_bit k y) n \<longleftrightarrow> (\<exists>d<2 * k. bit x (n + d))"
proof -
  have "bit (y OR drop_bit k y) n \<longleftrightarrow> bit y n \<or> bit y (k + n)"
    by (simp add: bit_or_iff bit_drop_bit_eq)
  also have "\<dots> \<longleftrightarrow> (\<exists>d<k. bit x (n + d)) \<or> (\<exists>d<k. bit x (k + n + d))"
    by (simp add: assms)
  also have "\<dots> \<longleftrightarrow> (\<exists>d<2 * k. bit x (n + d))" (is "?L \<longleftrightarrow> ?R")
  proof
    assume ?L
    then show ?R
    proof
      assume "\<exists>d<k. bit x (n + d)"
      then obtain d where "d < k" "bit x (n + d)" by blast
      then have "d < 2 * k \<and> bit x (n + d)" by simp
      then show ?R by blast
    next
      assume "\<exists>d<k. bit x (k + n + d)"
      then obtain d where "d < k" "bit x (k + n + d)" by blast
      then have "k + d < 2 * k \<and> bit x (n + (k + d))" by (simp add: ac_simps)
      then show ?R by blast
    qed
  next
    assume ?R
    then obtain d where d: "d < 2 * k" "bit x (n + d)" by blast
    show ?L
    proof (cases "d < k")
      case True
      with d show ?thesis by blast
    next
      case False
      with d have "d - k < k \<and> bit x (k + n + (d - k))" by (simp add: ac_simps)
      then show ?thesis by blast
    qed
  qed
  finally show ?thesis .
qed

lemma bit_int_lower: "0 \<le> (x::int) \<Longrightarrow> bit x m \<Longrightarrow> 2 ^ m \<le> x"
proof (rule ccontr)
  assume "0 \<le> x" and b: "bit x m" and "\<not> 2 ^ m \<le> x"
  then have "x div 2 ^ m = 0"
    by (simp add: div_pos_pos_trivial)
  with b show False
    by (simp add: bit_iff_odd)
qed

lemma bit_int_top: "2 ^ h \<le> (x::int) \<Longrightarrow> x < 2 ^ (Suc h) \<Longrightarrow> bit x h"
proof -
  assume a: "2 ^ h \<le> x" "x < 2 ^ (Suc h)"
  have "x div 2 ^ h = ((x - 2 ^ h) + 2 ^ h * 1) div 2 ^ h"
    by simp
  also have "\<dots> = 1 + (x - 2 ^ h) div 2 ^ h"
    by (rule div_mult_self2) simp
  also have "(x - 2 ^ h) div 2 ^ h = 0"
    using a by (intro div_pos_pos_trivial) simp_all
  finally have "x div 2 ^ h = 1"
    by simp
  then show ?thesis
    by (simp add: bit_iff_odd)
qed

lemma nextPow2_smear: "nextPow2 v = (let y = i32 (smear (i32 (v - 1)) + 1) in if y < 2 then 2 else y)"
  by (simp add: nextPow2_def smear_def Let_def)

lemma bit_smear: "bit (smear x) n \<longleftrightarrow> (\<exists>d<32. bit x (n + d))"
proof -
  define y1 where "y1 = x OR drop_bit 1 x"
  define y2 where "y2 = y1 OR drop_bit 2 y1"
  define y3 where "y3 = y2 OR drop_bit 4 y2"
  define y4 where "y4 = y3 OR drop_bit 8 y3"
  define y5 where "y5 = y4 OR drop_bit 16 y4"
  have 0: "bit x n \<longleftrightarrow> (\<exists>d<1. bit x (n + d))" for n
    by simp
  have 1: "bit y1 n \<longleftrightarrow> (\<exists>d<2. bit x (n + d))" for n
    unfolding y1_def using smear_step[of x 1 x n, OF 0] by simp
  have 2: "bit y2 n \<longleftrightarrow> (\<exists>d<4. bit x (n + d))" for n
    unfolding y2_def using smear_step[of y1 2 x n, OF 1] by simp
  have 3: "bit y3 n \<longleftrightarrow> (\<exists>d<8. bit x (n + d))" for n
    unfolding y3_def using smear_step[of y2 4 x n, OF 2] by simp
  have 4: "bit y4 n \<longleftrightarrow> (\<exists>d<16. bit x (n + d))" for n
    unfolding y4_def using smear_step[of y3 8 x n, OF 3] by simp
  have 5: "bit y5 n \<longleftrightarrow> (\<exists>d<32. bit x (n + d))" for n
    unfolding y5_def using smear_step[of y4 16 x n, OF 4] by simp
  have "smear x = y5"
    by (simp add: smear_def Let_def y5_def y4_def y3_def y2_def y1_def)
  with 5 show ?thesis
    by simp
qed

lemma smear_zero: "smear 0 = 0"
  by (simp add: smear_def)

lemma smear_mask:
  assumes "2 ^ h \<le> x" and "x < 2 ^ Suc h" and "h < 32"
  shows "smear x = 2 ^ Suc h - 1"
proof -
  have x0: "0 \<le> x"
    using assms(1) by (rule order_trans[rotated]) simp
  have "smear x = mask (Suc h)"
  proof (rule bit_eqI)
    fix n
    show "bit (smear x) n \<longleftrightarrow> bit (mask (Suc h) :: int) n"
    proof
      assume "bit (smear x) n"
      then obtain d where "bit x (n + d)"
        unfolding bit_smear by blast
      then have "(2::int) ^ (n + d) \<le> x"
        by (rule bit_int_lower[OF x0])
      with assms(2) have "(2::int) ^ (n + d) < 2 ^ Suc h"
        by linarith
      then have "n + d < Suc h"
        by (simp only: power_strict_increasing_iff one_less_numeral_iff semiring_norm)
      then show "bit (mask (Suc h) :: int) n"
        by (simp add: bit_mask_iff)
    next
      assume "bit (mask (Suc h) :: int) n"
      then have "n \<le> h"
        by (simp add: bit_mask_iff)
      then have "h - n < 32 \<and> bit x (n + (h - n))"
        using assms bit_int_top[of h x] by simp
      then show "bit (smear x) n"
        unfolding bit_smear by blast
    qed
  qed
  then show ?thesis
    by (simp only: mask_eq_exp_minus_1)
qed

lemma binade_exists:
  assumes "0 < (x::int)"
  obtains h where "2 ^ h \<le> x" and "x < 2 ^ Suc h"
proof -
  from bitlen_bounds[OF assms] have b: "2 ^ nat (bitlen x - 1) \<le> x" "x < 2 ^ nat (bitlen x)"
    by simp_all
  have "bitlen x \<noteq> 0"
    using assms by (simp add: bitlen_eq_zero_iff)
  with bitlen_nonneg[of x] have "nat (bitlen x) = Suc (nat (bitlen x - 1))"
    by linarith
  with b that show thesis
    by metis
qed

lemma pow2_lt_imp_lt: "(2::int) ^ a \<le> x \<Longrightarrow> x < 2 ^ b \<Longrightarrow> a < b"
proof -
  assume "(2::int) ^ a \<le> x" "x < 2 ^ b"
  then have "(2::int) ^ a < 2 ^ b"
    by linarith
  then show "a < b"
    by (simp only: power_strict_increasing_iff one_less_numeral_iff semiring_norm)
qed

lemma nextPow2_one: "nextPow2 1 = 2"
  by (simp add: nextPow2_smear i32_def smear_zero)

lemma nextPow2_in_range:
  assumes "2 \<le> v" and "v \<le> 2 ^ 30"
  obtains k where "1 \<le> k" and "k \<le> 30" and "nextPow2 v = 2 ^ k" and "v \<le> 2 ^ k"
    and "2 ^ (k - 1) < v"
proof -
  from assms obtain h where h: "2 ^ h \<le> v - 1" "v - 1 < 2 ^ Suc h"
    using binade_exists[of "v - 1"] by force
  from h(1) assms(2) have "h < 30"
    by (intro pow2_lt_imp_lt[of h "v - 1" 30]) simp_all
  have pre: "i32 (v - 1) = v - 1"
    using assms by (intro i32_id) simp_all
  have sm: "smear (v - 1) = 2 ^ Suc h - 1"
    using h \<open>h < 30\<close> by (intro smear_mask) simp_all
  have "(2::int) ^ Suc h \<le> 2 ^ 30"
    using \<open>h < 30\<close> by (intro power_increasing) simp_all
  then have lt31: "(2::int) ^ Suc h < 2 ^ 31"
    by simp
  have "- (2 ^ 31) \<le> (0::int)"
    by simp
  also have "(0::int) \<le> 2 ^ Suc h"
    by simp
  finally have post: "i32 (2 ^ Suc h) = 2 ^ Suc h"
    using lt31 by (rule i32_id)
  have "(1::int) \<le> 2 ^ h"
    by (rule one_le_power) simp
  then have ge2: "\<not> (2::int) ^ Suc h < 2"
    unfolding power_Suc by linarith
  have "smear (v - 1) + 1 = 2 ^ Suc h"
    unfolding sm by simp
  then have "nextPow2 v = 2 ^ Suc h"
    unfolding nextPow2_smear pre Let_def post if_not_P[OF ge2] by (simp only: post if_not_P[OF ge2])
  moreover have "v \<le> 2 ^ Suc h"
    using h(2) by simp
  moreover have "2 ^ (Suc h - 1) < v"
    using h(1) by simp
  moreover have "1 \<le> Suc h" "Suc h \<le> 30"
    using \<open>h < 30\<close> by simp_all
  ultimately show thesis
    by (rule that[rotated 2])
qed

lemma nextPow2_overflow:
  assumes "2 ^ 30 < v" and "v < 2 ^ 31"
  shows "nextPow2 v = 2"
proof -
  have pre: "i32 (v - 1) = v - 1"
    using assms by (intro i32_id) simp_all
  have sm: "smear (v - 1) = 2 ^ Suc 30 - 1"
    using assms by (intro smear_mask) simp_all
  have "i32 (2 ^ Suc 30 - 1 + 1) = - (2 ^ 31)"
    by (simp add: i32_def)
  then show ?thesis
    unfolding nextPow2_smear pre sm Let_def by simp
qed

lemma nextPow2_spec:
  assumes "1 \<le> v" and "v \<le> 2 ^ 30"
  shows "\<exists>k. 1 \<le> k \<and> k \<le> 30 \<and> nextPow2 v = 2 ^ k \<and> v \<le> 2 ^ k \<and> (k = 1 \<or> 2 ^ (k - 1) < v)"
proof (cases "v = 1")
  case True
  then have "1 \<le> (1::nat) \<and> (1::nat) \<le> 30 \<and> nextPow2 v = 2 ^ (1::nat) \<and> v \<le> 2 ^ (1::nat)
      \<and> ((1::nat) = 1 \<or> 2 ^ ((1::nat) - 1) < v)"
    by (simp add: nextPow2_one)
  then show ?thesis
    by blast
next
  case False
  with assms(1) have "2 \<le> v"
    by simp
  from nextPow2_in_range[OF this assms(2)] show ?thesis
    by metis
qed

lemma nextPow2_power_of_two:
  assumes "1 \<le> v" and "v < 2 ^ 31"
  shows "\<exists>k. 1 \<le> k \<and> k \<le> 30 \<and> nextPow2 v = 2 ^ k"
proof (cases "v \<le> 2 ^ 30")
  case True
  from nextPow2_spec[OF assms(1) this] show ?thesis
    by blast
next
  case False
  then have "nextPow2 v = 2"
    using assms(2) by (intro nextPow2_overflow) simp_all
  then have "1 \<le> (1::nat) \<and> (1::nat) \<le> 30 \<and> nextPow2 v = 2 ^ (1::nat)"
    by simp
  then show ?thesis
    by blast
qed

lemma init_outcome:
  assumes "0 < capacityFrames" and "0 < channels"
  shows "fst (init grants rb capacityFrames channels) =
     (if length (mData rb) < nat (nextPow2 capacityFrames) * nat channels
         \<and> \<not> grants (nat (nextPow2 capacityFrames) * nat channels)
      then Inl AllocError else Inr True)"
  using assms by (simp add: init_def Let_def)

lemma init_success:
  assumes "0 < capacityFrames" and "0 < channels"
    and "fst (init grants rb capacityFrames channels) = Inr True"
  shows "snd (init grants rb capacityFrames channels) =
     rb\<lparr>mChannels := channels,
        mCapacityFrames := nextPow2 capacityFrames,
        mMask := i32 (nextPow2 capacityFrames - 1),
        mData := resize (nat (nextPow2 capacityFrames) * nat channels) (mData rb),
        mRead := 0,
        mWrite := 0\<rparr>"
proof (cases "length (mData rb) < nat (nextPow2 capacityFrames) * nat channels
    \<and> \<not> grants (nat (nextPow2 capacityFrames) * nat channels)")
  case True
  then have "fst (init grants rb capacityFrames channels) = Inl AllocError"
    unfolding init_outcome[OF assms(1,2)] by simp
  with assms(3) show ?thesis
    by simp
next
  case False
  then show ?thesis
    using assms(1,2) by (auto simp add: init_def Let_def)
qed

lemma availableToRead_init:
  assumes "0 < capacityFrames" and "0 < channels"
    and "fst (init grants rb capacityFrames channels) = Inr True"
  shows "availableToRead (snd (init grants rb capacityFrames channels)) = 0"
  unfolding init_success[OF assms] by (simp add: availableToRead_def to_int32_def i32_def)

lemma availableToWrite_init:
  assumes "0 < capacityFrames" and "0 < channels"
    and "fst (init grants rb capacityFrames channels) = Inr True"
    and "- (2 ^ 31) \<le> nextPow2 capacityFrames" and "nextPow2 capacityFrames < 2 ^ 31"
  shows "availableToWrite (snd (init grants rb capacityFrames channels)) = nextPow2 capacityFrames"
proof -
  have "mCapacityFrames (snd (init grants rb capacityFrames channels)) = nextPow2 capacityFrames"
    unfolding init_success[OF assms(1,2,3)] by simp
  then show ?thesis
    unfolding availableToWrite_def availableToRead_init[OF assms(1,2,3)]
    using assms(4,5) by (simp add: i32_id)
qed

text \<open>
  C9, as the code has it. Take a capacity between 1 and \<open>2\<^sup>3\<^sup>0\<close> and a positive channel count.
  \<open>init\<close> throws exactly when the storage has to grow to the rounded capacity times the
  channel count and the vector does not get it. Otherwise it returns true, nothing is
  readable, and the writable space is the capacity rounded up to the next power of two, at
  least 2: it is \<open>2\<^sup>k\<close> with \<open>k \<ge> 1\<close>, not below the requested capacity, and minimal (\<open>k = 1\<close> or
  \<open>2\<^sup>k\<^sup>-\<^sup>1\<close> is below the request). For a non-positive capacity or channel count \<open>init\<close> returns
  false and leaves the ring as it was.
\<close>

theorem init_postconditions:
  fixes rb :: "'a::zero RingBuffer"
  shows "(1 \<le> capacityFrames \<and> capacityFrames \<le> 2 ^ 30 \<and> 1 \<le> channels \<longrightarrow>
      (fst (init grants rb capacityFrames channels) = Inl AllocError \<longleftrightarrow>
         length (mData rb) < nat (nextPow2 capacityFrames) * nat channels
         \<and> \<not> grants (nat (nextPow2 capacityFrames) * nat channels))
      \<and> (fst (init grants rb capacityFrames channels) \<noteq> Inl AllocError \<longrightarrow>
           fst (init grants rb capacityFrames channels) = Inr True
           \<and> availableToRead (snd (init grants rb capacityFrames channels)) = 0
           \<and> (\<exists>k. 1 \<le> k \<and> availableToWrite (snd (init grants rb capacityFrames channels)) = 2 ^ k
                 \<and> capacityFrames \<le> 2 ^ k \<and> (k = 1 \<or> 2 ^ (k - 1) < capacityFrames))))
    \<and> (capacityFrames \<le> 0 \<or> channels \<le> 0 \<longrightarrow>
         init grants rb capacityFrames channels = (Inr False, rb))"
proof (intro conjI impI)
  assume "capacityFrames \<le> 0 \<or> channels \<le> 0"
  then show "init grants rb capacityFrames channels = (Inr False, rb)"
    by (simp add: init_def)
next
  assume a: "1 \<le> capacityFrames \<and> capacityFrames \<le> 2 ^ 30 \<and> 1 \<le> channels"
  then have pos: "0 < capacityFrames" "0 < channels"
    by simp_all
  show "fst (init grants rb capacityFrames channels) = Inl AllocError \<longleftrightarrow>
         length (mData rb) < nat (nextPow2 capacityFrames) * nat channels
         \<and> \<not> grants (nat (nextPow2 capacityFrames) * nat channels)"
    unfolding init_outcome[OF pos] by simp
next
  assume a: "1 \<le> capacityFrames \<and> capacityFrames \<le> 2 ^ 30 \<and> 1 \<le> channels"
    and ne: "fst (init grants rb capacityFrames channels) \<noteq> Inl AllocError"
  from a have pos: "0 < capacityFrames" "0 < channels"
    by simp_all
  from ne show ok: "fst (init grants rb capacityFrames channels) = Inr True"
    unfolding init_outcome[OF pos] by (simp split: if_splits)
  from pos ok show "availableToRead (snd (init grants rb capacityFrames channels)) = 0"
    by (rule availableToRead_init)
  from a obtain k where k: "1 \<le> k" "k \<le> 30" "nextPow2 capacityFrames = 2 ^ k"
    "capacityFrames \<le> 2 ^ k" "k = 1 \<or> 2 ^ (k - 1) < capacityFrames"
    using nextPow2_spec[of capacityFrames] by blast
  have "(2::int) ^ k \<le> 2 ^ 30"
    using k(2) by (intro power_increasing) simp_all
  then have "(2::int) ^ k < 2 ^ 31"
    by simp
  then have r2: "nextPow2 capacityFrames < 2 ^ 31"
    unfolding k(3) .
  have r1: "- (2 ^ 31) \<le> nextPow2 capacityFrames"
    unfolding k(3) by (rule pow2_above_int_min)
  have "availableToWrite (snd (init grants rb capacityFrames channels)) = 2 ^ k"
    using availableToWrite_init[OF pos ok r1 r2] k(3) by simp
  with k show "\<exists>k. 1 \<le> k \<and> availableToWrite (snd (init grants rb capacityFrames channels)) = 2 ^ k
            \<and> capacityFrames \<le> 2 ^ k \<and> (k = 1 \<or> 2 ^ (k - 1) < capacityFrames)"
    by blast
qed

text \<open>
  Witness of C9 at the pipeline's own parameters, 9600 frames, stereo, with a vector that
  gets storage for up to \<open>2\<^sup>2\<^sup>4\<close> samples; the same vector does not get the \<open>2\<^sup>3\<^sup>1\<close> samples of
  \<open>2\<^sup>3\<^sup>0\<close> stereo frames, and \<open>init\<close> throws.
\<close>

theorem init_postconditions_witness:
  "fst (init (\<lambda>n. n \<le> 2 ^ 24) (RingBuffer_new :: f32 RingBuffer) 9600 2) = Inr True
   \<and> availableToRead (snd (init (\<lambda>n. n \<le> 2 ^ 24) (RingBuffer_new :: f32 RingBuffer) 9600 2)) = 0
   \<and> availableToWrite (snd (init (\<lambda>n. n \<le> 2 ^ 24) (RingBuffer_new :: f32 RingBuffer) 9600 2)) = 16384
   \<and> fst (init (\<lambda>n. n \<le> 2 ^ 24) (RingBuffer_new :: f32 RingBuffer) (2 ^ 30) 2) = Inl AllocError
   \<and> fst (init (\<lambda>n. n \<le> 2 ^ 24) (RingBuffer_new :: f32 RingBuffer) 0 2) = Inr False"
proof -
  let ?g = "\<lambda>n::nat. n \<le> 2 ^ 24"
  let ?new = "RingBuffer_new :: f32 RingBuffer"
  have np: "nextPow2 9600 = 16384" "nextPow2 1073741824 = 1073741824"
    by (simp_all add: nextPow2_def i32_def Let_def)
  have r1: "(1::int) \<le> 9600 \<and> (9600::int) \<le> 2 ^ 30 \<and> (1::int) \<le> 2"
    by simp
  have g1: "\<not> (length (mData ?new) < nat (nextPow2 9600) * nat 2
      \<and> \<not> ?g (nat (nextPow2 9600) * nat 2))"
    by (simp add: np)
  from r1 g1 init_postconditions[of 9600 2 ?g ?new]
  have a: "fst (init ?g ?new 9600 2) = Inr True
     \<and> availableToRead (snd (init ?g ?new 9600 2)) = 0"
    by blast
  have b: "availableToWrite (snd (init ?g ?new 9600 2)) = 16384"
    by (simp add: init_def Let_def availableToWrite_def availableToRead_def to_int32_def i32_def
        np RingBuffer_new_def)
  have r2: "(1::int) \<le> 2 ^ 30 \<and> (2::int) ^ 30 \<le> 2 ^ 30 \<and> (1::int) \<le> 2"
    by simp
  have g2: "length (mData ?new) < nat (nextPow2 (2 ^ 30)) * nat 2
      \<and> \<not> ?g (nat (nextPow2 (2 ^ 30)) * nat 2)"
    by (simp add: np RingBuffer_new_def)
  from r2 g2 init_postconditions[of "2 ^ 30" 2 ?g ?new]
  have c: "fst (init ?g ?new (2 ^ 30) 2) = Inl AllocError"
    by blast
  have "(0::int) \<le> 0 \<or> (2::int) \<le> 0"
    by simp
  with init_postconditions[of 0 2 ?g ?new]
  have d: "fst (init ?g ?new 0 2) = Inr False"
    by simp
  from a b c d show ?thesis
    by blast
qed

text \<open>
  C9 as stated, for every positive capacity, fails above \<open>2\<^sup>3\<^sup>0\<close>: the increment of
  \<^verbatim>\<open>nextPow2\<close> leaves the range of \<^verbatim>\<open>int32_t\<close>, and with two's complement wrap-around \<open>init\<close>
  succeeds with a ring of two frames, fewer than requested.
\<close>

theorem init_capacity_overflow_counterexample:
  "fst (init (\<lambda>n. n \<le> 2 ^ 24) (RingBuffer_new :: f32 RingBuffer) (2 ^ 30 + 1) 1) = Inr True
   \<and> availableToWrite (snd (init (\<lambda>n. n \<le> 2 ^ 24) (RingBuffer_new :: f32 RingBuffer) (2 ^ 30 + 1) 1)) = 2
   \<and> availableToWrite (snd (init (\<lambda>n. n \<le> 2 ^ 24) (RingBuffer_new :: f32 RingBuffer) (2 ^ 30 + 1) 1))
       < 2 ^ 30 + 1"
  by (simp add: init_def Let_def availableToWrite_def availableToRead_def to_int32_def i32_def
      nextPow2_def RingBuffer_new_def)

subsection \<open>Slots and casts\<close>

lemma slot_take_bit:
  assumes "mMask rb = 2 ^ k - 1"
  shows "slot rb w = take_bit k w"
proof -
  have "(word_of_int (2 ^ k - 1) :: 64 word) = mask k"
    by (simp add: mask_eq_exp_minus_1)
  then show ?thesis
    by (simp add: slot_def assms take_bit_eq_mask)
qed

lemma uint_slot:
  assumes "mMask rb = 2 ^ k - 1"
  shows "uint (slot rb w) = uint w mod 2 ^ k"
proof -
  have "uint (take_bit k w) = take_bit k (uint w)"
    by (rule unsigned_take_bit_eq)
  also have "\<dots> = uint w mod 2 ^ k"
    by (rule take_bit_eq_mod)
  finally show ?thesis
    by (simp only: slot_take_bit[OF assms])
qed

lemma unat_slot:
  assumes "mMask rb = 2 ^ k - 1"
  shows "unat (slot rb w) = unat w mod 2 ^ k"
proof -
  have "unat (take_bit k w) = take_bit k (unat w)"
    by (rule unsigned_take_bit_eq)
  also have "\<dots> = unat w mod 2 ^ k"
    by (rule take_bit_eq_mod)
  finally show ?thesis
    by (simp only: slot_take_bit[OF assms])
qed

lemma to_int32_slot:
  assumes "mMask rb = 2 ^ k - 1" and "k \<le> 30"
  shows "to_int32 (slot rb w) = int (unat w mod 2 ^ k)"
proof -
  have "uint w mod 2 ^ k < 2 ^ k"
    by simp
  also have "(2::int) ^ k \<le> 2 ^ 30"
    using assms(2) by (intro power_increasing) simp_all
  finally have lt: "uint w mod 2 ^ k < 2 ^ 31"
    by simp
  have "- (2 ^ 31) \<le> (0::int)"
    by simp
  also have "0 \<le> uint w mod 2 ^ k"
    by simp
  finally have "i32 (uint w mod 2 ^ k) = uint w mod 2 ^ k"
    using lt by (rule i32_id)
  also have "\<dots> = int (unat w mod 2 ^ k)"
    by (simp add: zmod_int)
  finally show ?thesis
    by (simp add: to_int32_def uint_slot[OF assms(1)])
qed

lemma to_int32_of_int:
  assumes "0 \<le> n" "n < 2 ^ 31"
  shows "to_int32 (word_of_int n) = n"
proof -
  have "uint (word_of_int n :: 64 word) = n mod 2 ^ 64"
    by (simp add: uint_word_of_int)
  also have "\<dots> = n"
    using assms by (intro mod_pos_pos_trivial) simp_all
  finally show ?thesis
    using assms by (simp add: to_int32_def i32_id)
qed

subsection \<open>Round trip\<close>

lemma memcpy_length:
  "off + n \<le> length dst \<Longrightarrow> n \<le> length src \<Longrightarrow> length (memcpy dst off src n) = length dst"
  by (simp add: memcpy_def)

lemma copy_nowrap:
  assumes "a + m \<le> length d" and "length S = m"
  shows "take m (memcpy dst 0 (drop a (memcpy d a S m)) m) = S"
proof -
  have "drop a (memcpy d a S m) = S @ drop (a + m) d"
    using assms by (simp add: memcpy_def)
  then show ?thesis
    using assms(2) by (simp add: memcpy_def)
qed

lemma copy_wrap:
  assumes "a + m1 = length d" and "length S = m1 + m2" and "m2 \<le> a"
  shows "take (m1 + m2)
     (memcpy (memcpy dst 0 (drop a (memcpy (memcpy d a S m1) 0 (drop m1 S) m2)) m1) m1
        (memcpy (memcpy d a S m1) 0 (drop m1 S) m2) m2) = S"
proof -
  let ?dataA = "memcpy d a S m1"
  let ?dataB = "memcpy ?dataA 0 (drop m1 S) m2"
  have A: "?dataA = take a d @ take m1 S"
    using assms(1) by (simp add: memcpy_def)
  have lenA: "length (take a d) = a"
    using assms(1) by simp
  have B: "?dataB = drop m1 S @ drop m2 (take a d) @ take m1 S"
    unfolding A using assms(2,3) lenA by (simp add: memcpy_def)
  have lenB1: "length (drop m1 S @ drop m2 (take a d)) = a"
    using assms lenA by simp
  have dropB: "drop a ?dataB = take m1 S"
    unfolding B using lenB1 by (metis append.assoc append_eq_conv_conj)
  have takeB: "take m2 ?dataB = drop m1 S"
    unfolding B using assms(2) by simp
  have lenS1: "length (take m1 S) = m1"
    using assms(2) by simp
  have dstA: "memcpy dst 0 (drop a ?dataB) m1 = take m1 S @ drop m1 dst"
    unfolding dropB using lenS1 by (simp add: memcpy_def)
  have "memcpy (take m1 S @ drop m1 dst) m1 ?dataB m2
      = take m1 S @ drop m1 S @ drop (m1 + m2) (take m1 S @ drop m1 dst)"
    using lenS1 takeB by (simp add: memcpy_def)
  then show ?thesis
    unfolding dstA using assms(2) by simp
qed

lemma resize_length: "length (resize n xs) = n"
  by (simp add: resize_def)

lemma init_ring_wf:
  assumes "1 \<le> capacityFrames" and "capacityFrames < 2 ^ 31" and "1 \<le> channels"
    and "fst (init grants rb capacityFrames channels) = Inr True"
  shows "\<exists>k. ring_wf (snd (init grants rb capacityFrames channels)) k"
proof -
  from nextPow2_power_of_two[OF assms(1,2)] obtain k
    where k: "1 \<le> k" "k \<le> 30" "nextPow2 capacityFrames = 2 ^ k"
    by blast
  have "(2::int) ^ k - 1 \<le> 2 ^ k"
    by simp
  then have "(2::int) ^ k - 1 < 2 ^ 31"
    using pow2_lt_2_31[OF k(2)] by (rule le_less_trans)
  moreover have "0 \<le> (2::int) ^ k - 1"
    using one_le_power[of "2::int" k] by simp
  ultimately have m: "i32 (2 ^ k - 1) = 2 ^ k - 1"
    by (intro i32_id_nonneg)
  have "nat ((2::int) ^ k) = 2 ^ k"
    by (simp add: nat_power_eq)
  have pos: "0 < capacityFrames" "0 < channels"
    using assms(1,3) by simp_all
  from \<open>nat ((2::int) ^ k) = 2 ^ k\<close>
  have "ring_wf (snd (init grants rb capacityFrames channels)) k"
    unfolding init_success[OF pos assms(4)]
    using assms(3) k m by (simp add: ring_wf_def resize_length)
  then show ?thesis ..
qed

lemma slot_index:
  assumes "ring_wf rb k"
  shows "unat (slot rb w) = unat w mod 2 ^ k"
    and "to_int32 (slot rb w) = int (unat w mod 2 ^ k)"
  using assms unat_slot[of rb k w] to_int32_slot[of rb k w] by (simp_all add: ring_wf_def)

text \<open>The split of a transfer of \<open>n\<close> frames that starts at slot \<open>s\<close> of a ring of \<open>c\<close> frames.\<close>

lemma first_segment:
  assumes "ring_wf rb k" and "0 < frames" and "frames \<le> 2 ^ k"
  shows "min frames (i32 (mCapacityFrames rb - to_int32 (slot rb w)))
      = int (min (nat frames) (2 ^ k - unat w mod 2 ^ k))"
proof -
  let ?s = "unat w mod 2 ^ k"
  have s: "?s < 2 ^ k"
    by simp
  have cap: "mCapacityFrames rb = 2 ^ k" and k30: "k \<le> 30"
    using assms(1) by (simp_all add: ring_wf_def)
  have si: "int ?s < 2 ^ k"
    using s by (metis of_nat_less_iff of_nat_numeral of_nat_power)
  have "(2::int) ^ k - int ?s \<le> 2 ^ k"
    by simp
  then have "(2::int) ^ k - int ?s < 2 ^ 31"
    using pow2_lt_2_31[OF k30] by (rule le_less_trans)
  moreover have "0 \<le> (2::int) ^ k - int ?s"
    using si by linarith
  ultimately have a: "i32 (2 ^ k - int ?s) = 2 ^ k - int ?s"
    by (intro i32_id_nonneg)
  have b: "2 ^ k - int ?s = int (2 ^ k - ?s)"
    using s by (simp add: of_nat_diff)
  define n where "n = nat frames"
  have fr: "frames = int n"
    using assms(2) by (simp add: n_def)
  have "min frames (i32 (mCapacityFrames rb - to_int32 (slot rb w)))
      = min frames (i32 (2 ^ k - int ?s))"
    by (simp only: cap slot_index(2)[OF assms(1)])
  also have "\<dots> = min frames (2 ^ k - int ?s)"
    by (simp only: a)
  also have "\<dots> = min (int n) (int (2 ^ k - ?s))"
    by (simp only: b fr)
  also have "\<dots> = int (min n (2 ^ k - ?s))"
    by (simp only: of_nat_min)
  finally show ?thesis
    by (simp only: n_def)
qed


lemma to_int32_zero: "to_int32 0 = 0"
  by (simp add: to_int32_def i32_def)

lemma transfer_split:
  fixes w :: "64 word"
  assumes "ring_wf rb k" and "0 < frames" and "frames \<le> 2 ^ k"
  defines "f \<equiv> min (nat frames) (2 ^ k - unat w mod 2 ^ k)"
  shows "nat (min frames (i32 (mCapacityFrames rb - to_int32 (slot rb w)))) = f"
    and "nat (frames - min frames (i32 (mCapacityFrames rb - to_int32 (slot rb w)))) = nat frames - f"
    and "0 < frames - min frames (i32 (mCapacityFrames rb - to_int32 (slot rb w))) \<longleftrightarrow> 0 < nat frames - f"
proof -
  have fs: "min frames (i32 (mCapacityFrames rb - to_int32 (slot rb w))) = int f"
    unfolding f_def by (rule first_segment[OF assms(1,2,3)])
  have le: "f \<le> nat frames"
    by (simp add: f_def)
  show "nat (min frames (i32 (mCapacityFrames rb - to_int32 (slot rb w)))) = f"
    unfolding fs by simp
  show "nat (frames - min frames (i32 (mCapacityFrames rb - to_int32 (slot rb w)))) = nat frames - f"
    unfolding fs using assms(2) by linarith
  show "0 < frames - min frames (i32 (mCapacityFrames rb - to_int32 (slot rb w))) \<longleftrightarrow> 0 < nat frames - f"
    unfolding fs using assms(2) le by linarith
qed

lemma writeInterleaved_empty:
  assumes "ring_wf rb k" and "mRead rb = mWrite rb" and "0 < frames" and "frames \<le> 2 ^ k"
  shows "writeInterleaved rb S frames =
    (frames,
     rb\<lparr>mData :=
          (let s = unat (mWrite rb) mod 2 ^ k; ch = nat (mChannels rb);
               f = min (nat frames) (2 ^ k - s); g = nat frames - f;
               dataA = memcpy (mData rb) (s * ch) S (f * ch)
           in if 0 < g then memcpy dataA 0 (drop (f * ch) S) (g * ch) else dataA),
        mWrite := mWrite rb + word_of_int frames\<rparr>)"
proof -
  have cap: "mCapacityFrames rb = 2 ^ k" and k30: "k \<le> 30"
    using assms(1) by (simp_all add: ring_wf_def)
  have "availableToRead rb = 0"
    by (simp add: availableToRead_def assms(2) to_int32_zero)
  moreover have "i32 (2 ^ k) = 2 ^ k"
    using pow2_lt_2_31[OF k30] by (intro i32_id_nonneg) simp_all
  ultimately have "availableToWrite rb = 2 ^ k"
    by (simp add: availableToWrite_def cap)
  then have fr: "max 0 (min frames (availableToWrite rb)) = frames"
    using assms(3,4) by simp
  have nz: "frames \<noteq> 0"
    using assms(3) by simp
  show ?thesis
    unfolding writeInterleaved_def fr Let_def if_not_P[OF nz]
      transfer_split[OF assms(1,3,4)] slot_index(1)[OF assms(1)]
    by simp
qed

lemma to_int32_frames:
  assumes "0 \<le> frames" and "frames \<le> 2 ^ k" and "k \<le> 30"
  shows "to_int32 (word_of_int frames) = frames"
proof -
  have "frames < 2 ^ 31"
    using assms(2) pow2_lt_2_31[OF assms(3)] by (rule le_less_trans)
  with assms(1) show ?thesis
    by (rule to_int32_of_int)
qed

lemma readInterleaved_full:
  assumes "ring_wf rb k" and "mWrite rb = mRead rb + word_of_int frames"
    and "0 < frames" and "frames \<le> 2 ^ k"
  shows "readInterleaved rb dst frames =
    ((frames,
      (let s = unat (mRead rb) mod 2 ^ k; ch = nat (mChannels rb);
           f = min (nat frames) (2 ^ k - s); g = nat frames - f;
           dstA = memcpy dst 0 (drop (s * ch) (mData rb)) (f * ch)
       in if 0 < g then memcpy dstA (f * ch) (mData rb) (g * ch) else dstA)),
     rb\<lparr>mRead := mRead rb + word_of_int frames\<rparr>)"
proof -
  have k30: "k \<le> 30"
    using assms(1) by (simp add: ring_wf_def)
  have "availableToRead rb = frames"
    using assms(3,4) by (simp add: availableToRead_def assms(2) to_int32_frames[OF _ _ k30])
  then have fr: "max 0 (min frames (availableToRead rb)) = frames"
    using assms(3) by simp
  have nz: "frames \<noteq> 0"
    using assms(3) by simp
  show ?thesis
    unfolding readInterleaved_def fr Let_def if_not_P[OF nz]
      transfer_split[OF assms(1,3,4)] slot_index(1)[OF assms(1)]
    by simp
qed


lemma round_trip_wf:
  assumes wf: "ring_wf rb k" and e: "mRead rb = mWrite rb"
    and fr: "0 \<le> frames" "frames \<le> mCapacityFrames rb"
    and S: "length S = nat frames * nat (mChannels rb)"
  shows "fst (writeInterleaved rb S frames) = frames
    \<and> fst (fst (readInterleaved (snd (writeInterleaved rb S frames)) dst frames)) = frames
    \<and> take (nat frames * nat (mChannels rb))
        (snd (fst (readInterleaved (snd (writeInterleaved rb S frames)) dst frames))) = S
    \<and> availableToRead (snd (readInterleaved (snd (writeInterleaved rb S frames)) dst frames)) = 0"
proof (cases "frames = 0")
  case True
  have w: "writeInterleaved rb src 0 = (0, rb)" for src
    by (simp add: writeInterleaved_def)
  have r: "readInterleaved rb dst 0 = ((0, dst), rb)"
    by (simp add: readInterleaved_def)
  have "availableToRead rb = 0"
    by (simp add: availableToRead_def e to_int32_zero)
  then show ?thesis
    using S unfolding True by (simp add: w r)
next
  case False
  with fr(1) have pos: "0 < frames"
    by simp
  have cap: "mCapacityFrames rb = 2 ^ k" and k30: "k \<le> 30"
    and len: "length (mData rb) = 2 ^ k * nat (mChannels rb)"
    using wf by (simp_all add: ring_wf_def)
  have le: "frames \<le> 2 ^ k"
    using fr(2) cap by simp
  define ch where "ch = nat (mChannels rb)"
  define n where "n = nat frames"
  define s where "s = unat (mWrite rb) mod 2 ^ k"
  define f where "f = min n (2 ^ k - s)"
  define g where "g = n - f"
  define dataA where "dataA = memcpy (mData rb) (s * ch) S (f * ch)"
  define dataB where "dataB = (if 0 < g then memcpy dataA 0 (drop (f * ch) S) (g * ch) else dataA)"
  define rb1 where "rb1 = rb\<lparr>mData := dataB, mWrite := mWrite rb + word_of_int frames\<rparr>"
  have w: "writeInterleaved rb S frames = (frames, rb1)"
    unfolding writeInterleaved_empty[OF wf e pos le] rb1_def dataB_def dataA_def g_def f_def
      s_def n_def ch_def Let_def ..
  have s_lt: "s < 2 ^ k"
    by (simp add: s_def)
  have n_le: "n \<le> 2 ^ k"
  proof -
    have "int n \<le> int (2 ^ k)"
      using le pos by (simp add: n_def)
    then show ?thesis
      by (simp only: of_nat_le_iff)
  qed
  have lenS: "length S = n * ch"
    using S by (simp add: n_def ch_def)
  have fg: "f + g = n"
    by (simp add: f_def g_def)
  have sf: "s + f \<le> 2 ^ k"
    using s_lt by (simp add: f_def)
  have lenD: "length (mData rb) = 2 ^ k * ch"
    using len by (simp add: ch_def)
  have a_bound: "s * ch + f * ch \<le> length (mData rb)"
  proof -
    have "(s + f) * ch \<le> 2 ^ k * ch"
      using sf by (rule mult_le_mono1)
    then show ?thesis
      by (simp add: lenD add_mult_distrib)
  qed
  have f_le: "f * ch \<le> length S"
    unfolding lenS by (rule mult_le_mono1) (simp add: f_def)
  have lenA: "length dataA = length (mData rb)"
    unfolding dataA_def using a_bound f_le by (rule memcpy_length)
  have wf1: "ring_wf rb1 k"
  proof -
    have "length dataB = length (mData rb)"
    proof (cases "0 < g")
      case True
      have "g * ch \<le> length dataA"
      proof -
        have "g \<le> 2 ^ k"
          using n_le by (simp add: g_def)
        then have "g * ch \<le> 2 ^ k * ch"
          by (rule mult_le_mono1)
        then show ?thesis
          by (simp add: lenA lenD)
      qed
      moreover have "g * ch \<le> length (drop (f * ch) S)"
      proof -
        have "n * ch - f * ch = (n - f) * ch"
          by (simp add: diff_mult_distrib)
        then show ?thesis
          by (simp add: lenS g_def)
      qed
      ultimately have "length (memcpy dataA 0 (drop (f * ch) S) (g * ch)) = length dataA"
        by (intro memcpy_length) simp_all
      with True show ?thesis
        by (simp add: dataB_def lenA)
    next
      case False
      then show ?thesis
        by (simp add: dataB_def lenA)
    qed
    then show ?thesis
      using wf by (simp add: ring_wf_def rb1_def)
  qed
  have full: "mWrite rb1 = mRead rb1 + word_of_int frames"
    by (simp add: rb1_def e)
  define dstA where "dstA = memcpy dst 0 (drop (s * ch) dataB) (f * ch)"
  define dstB where "dstB = (if 0 < g then memcpy dstA (f * ch) dataB (g * ch) else dstA)"
  have r: "readInterleaved rb1 dst frames = ((frames, dstB), rb1\<lparr>mRead := mRead rb1 + word_of_int frames\<rparr>)"
  proof -
    have sel: "mRead rb1 = mWrite rb" "mChannels rb1 = mChannels rb" "mData rb1 = dataB"
      by (simp_all add: rb1_def e)
    show ?thesis
      unfolding readInterleaved_full[OF wf1 full pos le] sel dstB_def dstA_def g_def f_def
        s_def n_def ch_def Let_def ..
  qed
  have data: "take (n * ch) dstB = S"
  proof (cases "0 < g")
    case False
    then have "f = n"
      using fg by simp
    have "take (n * ch) (memcpy dst 0 (drop (s * ch) (memcpy (mData rb) (s * ch) S (n * ch))) (n * ch)) = S"
      using a_bound lenS unfolding \<open>f = n\<close> by (intro copy_nowrap) simp_all
    with False show ?thesis
      by (simp add: dstB_def dstA_def dataB_def dataA_def \<open>f = n\<close>)
  next
    case True
    then have "f = 2 ^ k - s"
      by (simp add: g_def f_def min_def split: if_splits)
    then have eq: "s * ch + f * ch = length (mData rb)"
      using s_lt by (simp add: lenD add_mult_distrib[symmetric])
    have g_le: "g * ch \<le> s * ch"
    proof -
      have "g \<le> s"
        using n_le \<open>f = 2 ^ k - s\<close> s_lt by (simp add: g_def)
      then show ?thesis
        by (rule mult_le_mono1)
    qed
    have lenS': "length S = f * ch + g * ch"
      using fg by (simp add: lenS add_mult_distrib[symmetric])
    have "take (f * ch + g * ch)
       (memcpy (memcpy dst 0 (drop (s * ch)
           (memcpy (memcpy (mData rb) (s * ch) S (f * ch)) 0 (drop (f * ch) S) (g * ch))) (f * ch))
         (f * ch)
         (memcpy (memcpy (mData rb) (s * ch) S (f * ch)) 0 (drop (f * ch) S) (g * ch)) (g * ch)) = S"
      using eq lenS' g_le by (rule copy_wrap)
    moreover have "n * ch = f * ch + g * ch"
      using lenS lenS' by simp
    ultimately show ?thesis
      using True by (simp add: dstB_def dstA_def dataB_def dataA_def)
  qed
  have empty: "availableToRead (rb1\<lparr>mRead := mRead rb1 + word_of_int frames\<rparr>) = 0"
    by (simp add: availableToRead_def full to_int32_zero)
  show ?thesis
    using data empty by (simp add: w r n_def ch_def)
qed


text \<open>
  C1. Take a ring as \<open>init\<close> leaves it when it returns true, for any positive capacity and
  channel count (from whatever ring, and whatever storage the vector gets), at any
  position \<open>p\<close> of its two counters at which it is empty and with any contents \<open>d\<close> of its
  storage. Writing a sequence \<open>S\<close> of at most \<open>mCapacityFrames\<close> frames and reading the same
  count back returns both counts in full and exactly the samples of \<open>S\<close>, whether or not the
  transfer crosses the end of the storage.
\<close>

theorem ring_round_trip:
  fixes prev :: "'a::zero RingBuffer"
  assumes "1 \<le> capacityFrames" and "capacityFrames < 2 ^ 31" and "1 \<le> channels"
    and "fst (init grants prev capacityFrames channels) = Inr True"
    and "rb = (snd (init grants prev capacityFrames channels))\<lparr>mData := d, mRead := p, mWrite := p\<rparr>"
    and "length d = length (mData (snd (init grants prev capacityFrames channels)))"
    and "0 \<le> frames" and "frames \<le> mCapacityFrames rb"
    and "length S = nat frames * nat channels"
    and "nat frames * nat channels \<le> length dst"
  shows "fst (writeInterleaved rb S frames) = frames
    \<and> fst (fst (readInterleaved (snd (writeInterleaved rb S frames)) dst frames)) = frames
    \<and> take (nat frames * nat channels)
        (snd (fst (readInterleaved (snd (writeInterleaved rb S frames)) dst frames))) = S"
proof -
  from init_ring_wf[OF assms(1,2,3,4)] obtain k
    where k: "ring_wf (snd (init grants prev capacityFrames channels)) k"
    by blast
  have pos: "0 < capacityFrames" "0 < channels"
    using assms(1,3) by simp_all
  have ch: "mChannels rb = channels"
    unfolding assms(5) init_success[OF pos assms(4)] by simp
  have wf: "ring_wf rb k"
    using k assms(6) by (simp add: ring_wf_def assms(5))
  have e: "mRead rb = mWrite rb"
    by (simp add: assms(5))
  have S: "length S = nat frames * nat (mChannels rb)"
    using assms(9) ch by simp
  from round_trip_wf[OF wf e assms(7,8) S, of dst] show ?thesis
    unfolding ch by blast
qed

text \<open>
  Witness of C1: a stereo ring of four frames at position 7, so that a transfer of three
  frames starts in slot 3 and wraps.
\<close>

theorem ring_round_trip_witness:
  "fst (init (\<lambda>n. n \<le> 2 ^ 24) (RingBuffer_new :: f32 RingBuffer) 3 2) = Inr True
   \<and> fst (writeInterleaved
         ((snd (init (\<lambda>n. n \<le> 2 ^ 24) (RingBuffer_new :: f32 RingBuffer) 3 2))
            \<lparr>mData := replicate 8 (Finite 9), mRead := 7, mWrite := 7\<rparr>)
         [Finite 1, Finite 2, Finite 3, Finite 4, Finite 5, Finite 6] 3) = 3
   \<and> take (nat 3 * nat 2)
       (snd (fst (readInterleaved
          (snd (writeInterleaved
             ((snd (init (\<lambda>n. n \<le> 2 ^ 24) (RingBuffer_new :: f32 RingBuffer) 3 2))
                \<lparr>mData := replicate 8 (Finite 9), mRead := 7, mWrite := 7\<rparr>)
             [Finite 1, Finite 2, Finite 3, Finite 4, Finite 5, Finite 6] 3))
          (replicate 6 (Finite 0)) 3)))
       = [Finite 1, Finite 2, Finite 3, Finite 4, Finite 5, Finite 6]
   \<and> unat (7 :: 64 word) mod 4 + 3 > 4"
proof -
  let ?g = "\<lambda>n::nat. n \<le> 2 ^ 24"
  let ?fresh = "RingBuffer_new :: f32 RingBuffer"
  let ?ring = "(snd (init ?g ?fresh 3 2))\<lparr>mData := replicate 8 (Finite 9), mRead := 7, mWrite := 7\<rparr>"
  let ?S = "[Finite 1, Finite 2, Finite 3, Finite 4, Finite 5, Finite 6]"
  have np: "nextPow2 3 = 4"
    by (simp add: nextPow2_def i32_def Let_def)
  have h1: "(1::int) \<le> 3" and h2: "(3::int) < 2 ^ 31" and h3: "(1::int) \<le> 2"
    by simp_all
  have ok: "fst (init ?g ?fresh 3 2) = Inr True"
    by (simp add: init_def Let_def np)
  have h5: "length (replicate 8 (Finite 9)) = length (mData (snd (init ?g ?fresh 3 2)))"
    by (simp add: init_def Let_def np resize_length)
  have h6: "(0::int) \<le> 3"
    by simp
  have h7: "3 \<le> mCapacityFrames ?ring"
    by (simp add: init_def Let_def np)
  have h8: "length ?S = nat 3 * nat 2"
    by simp
  have h9: "nat 3 * nat 2 \<le> length (replicate 6 (Finite (0::rat)))"
    by simp
  have h4: "?ring = (snd (init ?g ?fresh 3 2))\<lparr>mData := replicate 8 (Finite 9), mRead := 7, mWrite := 7\<rparr>"
    by (rule refl)
  note t = ring_round_trip[where grants = "?g" and prev = "?fresh" and capacityFrames = 3
      and channels = 2 and rb = "?ring" and d = "replicate 8 (Finite 9)" and p = 7 and frames = 3
      and S = "?S" and dst = "replicate 6 (Finite 0)", OF h1 h2 h3 ok h4 h5 h6 h7 h8 h9]
  from t ok show ?thesis
    by simp
qed

subsection \<open>Reads in general\<close>

lemma readInterleaved_count:
  "fst (fst (readInterleaved rb dst m)) = max 0 (min m (availableToRead rb))"
  by (simp add: readInterleaved_def Let_def)

lemma readInterleaved_nothing:
  "max 0 (min m (availableToRead rb)) = 0 \<Longrightarrow> readInterleaved rb dst m = ((0, dst), rb)"
  by (simp add: readInterleaved_def Let_def)

lemma readInterleaved_some:
  assumes "ring_wf rb k" and "max 0 (min m (availableToRead rb)) = frames"
    and "0 < frames" and "frames \<le> 2 ^ k"
  shows "readInterleaved rb dst m =
    ((frames,
      (let s = unat (mRead rb) mod 2 ^ k; ch = nat (mChannels rb);
           f = min (nat frames) (2 ^ k - s); g = nat frames - f;
           dstA = memcpy dst 0 (drop (s * ch) (mData rb)) (f * ch)
       in if 0 < g then memcpy dstA (f * ch) (mData rb) (g * ch) else dstA)),
     rb\<lparr>mRead := mRead rb + word_of_int frames\<rparr>)"
proof -
  have nz: "frames \<noteq> 0"
    using assms(3) by simp
  show ?thesis
    unfolding readInterleaved_def assms(2) Let_def if_not_P[OF nz]
      transfer_split[OF assms(1,3,4)] slot_index(1)[OF assms(1)]
    by simp
qed

lemma readInterleaved_length:
  assumes wf: "ring_wf rb k" and le: "max 0 (min m (availableToRead rb)) \<le> 2 ^ k"
    and dst: "nat (max 0 (min m (availableToRead rb))) * nat (mChannels rb) \<le> length dst"
  shows "length (snd (fst (readInterleaved rb dst m))) = length dst"
proof (cases "max 0 (min m (availableToRead rb)) = 0")
  case True
  then show ?thesis
    by (simp add: readInterleaved_nothing)
next
  case False
  define frames where "frames = max 0 (min m (availableToRead rb))"
  have pos: "0 < frames"
    using False by (simp add: frames_def)
  have fle: "frames \<le> 2 ^ k"
    using le by (simp add: frames_def)
  define ch where "ch = nat (mChannels rb)"
  define n where "n = nat frames"
  define s where "s = unat (mRead rb) mod 2 ^ k"
  define f where "f = min n (2 ^ k - s)"
  define g where "g = n - f"
  define dstA where "dstA = memcpy dst 0 (drop (s * ch) (mData rb)) (f * ch)"
  define dstB where "dstB = (if 0 < g then memcpy dstA (f * ch) (mData rb) (g * ch) else dstA)"
  have r: "snd (fst (readInterleaved rb dst m)) = dstB"
    unfolding readInterleaved_some[OF wf frames_def[symmetric] pos fle] dstB_def dstA_def g_def
      f_def s_def n_def ch_def Let_def by simp
  have lenD: "length (mData rb) = 2 ^ k * ch"
    using wf by (simp add: ring_wf_def ch_def)
  have s_lt: "s < 2 ^ k"
    by (simp add: s_def)
  have n_le: "n \<le> 2 ^ k"
  proof -
    have "int n \<le> int (2 ^ k)"
      using fle pos by (simp add: n_def)
    then show ?thesis
      by (simp only: of_nat_le_iff)
  qed
  have dlen: "n * ch \<le> length dst"
    using dst by (simp add: frames_def n_def ch_def)
  have fn: "f \<le> n" and fg: "f + g = n"
    by (simp_all add: f_def g_def)
  have "f * ch \<le> n * ch"
    using fn by (rule mult_le_mono1)
  then have f1: "f * ch \<le> length dst"
    using dlen by (rule order_trans)
  have "(s + f) * ch \<le> 2 ^ k * ch"
    using s_lt by (intro mult_le_mono1) (simp add: f_def)
  then have f2: "f * ch \<le> length (drop (s * ch) (mData rb))"
    by (simp add: lenD add_mult_distrib)
  have lenA: "length dstA = length dst"
    unfolding dstA_def using f1 f2 by (intro memcpy_length) simp_all
  have lenB: "length dstB = length dst"
  proof (cases "0 < g")
    case True
    have "f * ch + g * ch = n * ch"
      using fg by (simp add: add_mult_distrib[symmetric])
    then have a: "f * ch + g * ch \<le> length dstA"
      using dlen lenA by simp
    have "g \<le> 2 ^ k"
      using n_le by (simp add: g_def)
    then have "g * ch \<le> 2 ^ k * ch"
      by (rule mult_le_mono1)
    then have b: "g * ch \<le> length (mData rb)"
      by (simp add: lenD)
    have "length (memcpy dstA (f * ch) (mData rb) (g * ch)) = length dstA"
      using a b by (rule memcpy_length)
    with True show ?thesis
      by (simp add: dstB_def lenA)
  next
    case False
    then show ?thesis
      by (simp add: dstB_def lenA)
  qed
  show ?thesis
    unfolding r by (rule lenB)
qed

lemma readInterleaved_mRead:
  "mRead (snd (readInterleaved rb dst m)) = mRead rb + word_of_int (max 0 (min m (availableToRead rb)))"
  by (simp add: readInterleaved_def Let_def)

lemma readInterleaved_mWrite:
  "mWrite (snd (readInterleaved rb dst m)) = mWrite rb"
  by (simp add: readInterleaved_def Let_def)

lemma availableToRead_uint:
  assumes "uint (mWrite rb - mRead rb) < 2 ^ 31"
  shows "availableToRead rb = uint (mWrite rb - mRead rb)"
  using assms by (simp add: availableToRead_def to_int32_def i32_id_nonneg)

lemma drained:
  assumes "uint (mWrite rb - mRead rb) < 2 ^ 31"
    and "availableToRead rb \<le> m"
  shows "availableToRead (snd (readInterleaved rb dst m)) = 0"
proof -
  have a: "availableToRead rb = uint (mWrite rb - mRead rb)"
    using assms(1) by (rule availableToRead_uint)
  then have "0 \<le> availableToRead rb"
    by simp
  with assms(2) have "max 0 (min m (availableToRead rb)) = availableToRead rb"
    by simp
  then have "mRead (snd (readInterleaved rb dst m)) = mRead rb + (mWrite rb - mRead rb)"
    unfolding readInterleaved_mRead a by simp
  then show ?thesis
    by (simp add: availableToRead_def readInterleaved_mWrite to_int32_zero)
qed

section \<open>pullTo: properties\<close>

lemma read_at_zero: "read_at rb out 0 m = readInterleaved rb out m"
  by (simp add: read_at_def Let_def)

lemma read_at_nothing:
  "max 0 (min m (availableToRead rb)) = 0 \<Longrightarrow> read_at rb out off m = ((0, out), rb)"
  by (simp add: read_at_def Let_def readInterleaved_nothing)

lemma pull_loop_result:
  assumes "uint (mWrite ring - mRead ring) < 2 ^ 31"
  shows "pull_loop ring ch out numFrames 0 =
    ((max 0 (min numFrames (availableToRead ring)), snd (fst (readInterleaved ring out numFrames))),
     snd (readInterleaved ring out numFrames))"
proof -
  define a where "a = availableToRead ring"
  define t where "t = max 0 (min numFrames a)"
  define r where "r = readInterleaved ring out numFrames"
  have a0: "0 \<le> a"
    unfolding a_def availableToRead_uint[OF assms] by simp
  have got: "fst (fst r) = t"
    by (simp add: r_def t_def a_def readInterleaved_count)
  show ?thesis
  proof (cases "0 < numFrames")
    case False
    then have "max 0 (min numFrames (availableToRead ring)) = 0"
      by simp
    then show ?thesis
      using False by (subst pull_loop.simps) (simp add: readInterleaved_nothing)
  next
    case True
    have step: "pull_loop ring ch out numFrames 0 =
        (if t \<le> 0 then ((0, snd (fst r)), snd r)
         else pull_loop (snd r) ch (snd (fst r)) numFrames t)"
      using True by (subst pull_loop.simps) (simp add: read_at_zero Let_def r_def[symmetric] got)
    show ?thesis
    proof (cases "t \<le> 0")
      case True
      then have "t = 0"
        by (simp add: t_def)
      then show ?thesis
        unfolding step by (simp add: t_def a_def r_def)
    next
      case False
      then have tpos: "0 < t"
        by simp
      show ?thesis
      proof (cases "t < numFrames")
        case False
        then have "pull_loop (snd r) ch (snd (fst r)) numFrames t = ((t, snd (fst r)), snd r)"
          by (subst pull_loop.simps) simp
        then show ?thesis
          unfolding step using tpos by (simp add: t_def a_def r_def)
      next
        case True
        then have "a \<le> numFrames"
          unfolding t_def by linarith
        then have "availableToRead (snd r) = 0"
          unfolding r_def a_def by (intro drained[OF assms])
        then have "max 0 (min (numFrames - t) (availableToRead (snd r))) = 0"
          using True by simp
        then have "read_at (snd r) (snd (fst r)) (nat t * nat ch) (numFrames - t)
            = ((0, snd (fst r)), snd r)"
          by (rule read_at_nothing)
        then have "pull_loop (snd r) ch (snd (fst r)) numFrames t = ((t, snd (fst r)), snd r)"
          using True by (subst pull_loop.simps) (simp add: Let_def)
        then show ?thesis
          unfolding step using tpos by (simp add: t_def a_def r_def)
      qed
    qed
  qed
qed

lemma memset_zero_nth:
  "off \<le> length dst \<Longrightarrow> off \<le> i \<Longrightarrow> i < off + n \<Longrightarrow> memset_zero dst off n ! i = Finite 0"
proof -
  assume a: "off \<le> length dst" "off \<le> i" "i < off + n"
  then have "i - off < n"
    by linarith
  with a show ?thesis
    by (simp add: memset_zero_def nth_append)
qed

lemma memset_zero_take:
  "off \<le> length dst \<Longrightarrow> take off (memset_zero dst off n) = take off dst"
  by (simp add: memset_zero_def)

lemma pullTo_returns: "fst (fst (pullTo eng out numFrames now)) = numFrames"
  by (simp add: pullTo_def Let_def)

text \<open>
  C8. Every call of \<open>pullTo\<close> returns \<open>numFrames\<close>. On an output ring as \<open>start\<close> sets it up
  (well formed, holding \<open>a\<close> frames, with the channel count of the playback stream) and an
  output buffer of \<open>numFrames\<close> frames, the first \<open>min numFrames a\<close> frames are those the ring
  delivers, the rest of the buffer is zero, and the underflow counter grows by the deficit
  \<open>numFrames - a\<close> exactly when the ring was short and the clock reads at least 300 ms past
  the start time; otherwise it is unchanged.
\<close>

theorem pullTo_semantics:
  "fst (fst (pullTo eng out numFrames now)) = numFrames
   \<and> (ring_wf (mOutRing eng) k
        \<and> uint (mWrite (mOutRing eng) - mRead (mOutRing eng)) \<le> 2 ^ k
        \<and> mChannels (mOutRing eng) = channelCount (mOut eng)
        \<and> nat numFrames * nat (channelCount (mOut eng)) \<le> length out \<longrightarrow>
       (let a = availableToRead (mOutRing eng);
            t = min numFrames a;
            c = nat (channelCount (mOut eng));
            out' = snd (fst (pullTo eng out numFrames now));
            eng' = snd (pullTo eng out numFrames now)
        in 0 \<le> a
           \<and> take (nat t * c) out' =
               take (nat t * c) (snd (fst (readInterleaved (mOutRing eng) out numFrames)))
           \<and> (\<forall>i. nat t * c \<le> i \<and> i < nat numFrames * c \<longrightarrow> out' ! i = Finite 0)
           \<and> mUnderflows eng' =
               (if a < numFrames \<and> ms300 \<le> now - mStartTime eng
                then mUnderflows eng + word_of_int (numFrames - a) else mUnderflows eng)))"
proof (intro conjI impI)
  show "fst (fst (pullTo eng out numFrames now)) = numFrames"
    by (rule pullTo_returns)
next
  assume asm: "ring_wf (mOutRing eng) k
        \<and> uint (mWrite (mOutRing eng) - mRead (mOutRing eng)) \<le> 2 ^ k
        \<and> mChannels (mOutRing eng) = channelCount (mOut eng)
        \<and> nat numFrames * nat (channelCount (mOut eng)) \<le> length out"
  define ring where "ring = mOutRing eng"
  define c where "c = nat (channelCount (mOut eng))"
  define a where "a = availableToRead ring"
  define T where "T = max 0 (min numFrames a)"
  define out1 where "out1 = snd (fst (readInterleaved ring out numFrames))"
  define ring1 where "ring1 = snd (readInterleaved ring out numFrames)"
  from asm have wf: "ring_wf ring k" and rng: "uint (mWrite ring - mRead ring) \<le> 2 ^ k"
    and ch: "nat (mChannels ring) = c" and len: "nat numFrames * c \<le> length out"
    by (simp_all add: ring_def c_def)
  have k30: "k \<le> 30"
    using wf by (simp add: ring_wf_def)
  have lt31: "uint (mWrite ring - mRead ring) < 2 ^ 31"
    using rng pow2_lt_2_31[OF k30] by (rule le_less_trans)
  have a_eq: "a = uint (mWrite ring - mRead ring)"
    unfolding a_def by (rule availableToRead_uint[OF lt31])
  have a0: "0 \<le> a"
    unfolding a_eq by simp
  have a_le: "a \<le> 2 ^ k"
    unfolding a_eq by (rule rng)
  have loop: "pull_loop ring (channelCount (mOut eng)) out numFrames 0 = ((T, out1), ring1)"
    unfolding pull_loop_result[OF lt31] T_def a_def out1_def ring1_def ..
  have T0: "0 \<le> T"
    by (simp add: T_def)
  have natT: "nat T = nat (min numFrames a)"
    by (simp add: T_def)
  have T_le_k: "T \<le> 2 ^ k"
    using a_le a0 unfolding T_def by linarith
  have Tc: "nat T * c \<le> length out"
  proof -
    have "nat T \<le> nat numFrames"
      unfolding T_def using a0 by linarith
    then have "nat T * c \<le> nat numFrames * c"
      by (rule mult_le_mono1)
    then show ?thesis
      using len by (rule order_trans)
  qed
  have len1: "length out1 = length out"
    unfolding out1_def
    using T_le_k Tc by (intro readInterleaved_length[OF wf]) (simp_all add: T_def a_def ch)
  have short: "T < numFrames \<longleftrightarrow> a < numFrames"
    unfolding T_def using a0 by linarith
  have deficit: "T < numFrames \<Longrightarrow> T = a"
    unfolding T_def using a0 by linarith
  have res: "pullTo eng out numFrames now =
      (if T < numFrames then
         ((numFrames, memset_zero out1 (nat T * c) (nat (numFrames - T) * c)),
          (if ms300 \<le> now - mStartTime eng
           then eng\<lparr>mOutRing := ring1, mUnderflows := mUnderflows eng + word_of_int (numFrames - T)\<rparr>
           else eng\<lparr>mOutRing := ring1\<rparr>))
       else ((numFrames, out1), eng\<lparr>mOutRing := ring1\<rparr>))"
    unfolding pullTo_def ring_def[symmetric] loop by (simp add: Let_def c_def not_less)
  have p1: "take (nat (min numFrames a) * c) (snd (fst (pullTo eng out numFrames now))) =
      take (nat (min numFrames a) * c) out1"
    unfolding res natT[symmetric] using Tc len1 by (simp add: memset_zero_take)
  have p2: "snd (fst (pullTo eng out numFrames now)) ! i = Finite 0"
    if "nat (min numFrames a) * c \<le> i \<and> i < nat numFrames * c" for i
  proof (cases "T < numFrames")
    case True
    have "nat T + nat (numFrames - T) = nat numFrames"
      using True T0 by linarith
    then have "nat T * c + nat (numFrames - T) * c = nat numFrames * c"
      by (simp add: add_mult_distrib[symmetric])
    with that have "nat T * c \<le> i" "i < nat T * c + nat (numFrames - T) * c"
      by (simp_all add: natT)
    with Tc len1 have "memset_zero out1 (nat T * c) (nat (numFrames - T) * c) ! i = Finite 0"
      by (intro memset_zero_nth) simp_all
    with True show ?thesis
      unfolding res by simp
  next
    case False
    then have "nat numFrames \<le> nat (min numFrames a)"
      unfolding T_def using a0 by linarith
    then have "nat numFrames * c \<le> nat (min numFrames a) * c"
      by (rule mult_le_mono1)
    with that show ?thesis
      by linarith
  qed
  have p3: "mUnderflows (snd (pullTo eng out numFrames now)) =
      (if a < numFrames \<and> ms300 \<le> now - mStartTime eng
       then mUnderflows eng + word_of_int (numFrames - a) else mUnderflows eng)"
    unfolding res using short deficit by auto
  show "let a = availableToRead (mOutRing eng);
            t = min numFrames a;
            c = nat (channelCount (mOut eng));
            out' = snd (fst (pullTo eng out numFrames now));
            eng' = snd (pullTo eng out numFrames now)
        in 0 \<le> a
           \<and> take (nat t * c) out' =
               take (nat t * c) (snd (fst (readInterleaved (mOutRing eng) out numFrames)))
           \<and> (\<forall>i. nat t * c \<le> i \<and> i < nat numFrames * c \<longrightarrow> out' ! i = Finite 0)
           \<and> mUnderflows eng' =
               (if a < numFrames \<and> ms300 \<le> now - mStartTime eng
                then mUnderflows eng + word_of_int (numFrames - a) else mUnderflows eng)"
    unfolding Let_def ring_def[symmetric] a_def[symmetric] c_def[symmetric] out1_def[symmetric]
    using a0 p1 p2 p3 by blast
qed


text \<open>
  Witness of C8: one stereo frame in the ring, three requested; 400 ms after the start the
  counter grows by two, 100 ms after the start it does not.
\<close>

theorem pullTo_semantics_witness:
  "fst (fst (pullTo
      (\<lparr>mOut = \<lparr>channelCount = 2, framesPerBurst = 96, sampleRate = 48000\<rparr>,
       mOutRing = \<lparr>mData = [Finite 1, Finite 2, Finite 0, Finite 0, Finite 0, Finite 0, Finite 0, Finite 0],
                   mChannels = 2, mCapacityFrames = 4, mMask = 3, mRead = 0, mWrite = 1\<rparr>,
       mUnderflows = 0, mOverflows = 0, mStartTime = 0\<rparr>) (replicate 6 (Finite 7)) 3 (400 * 1000000))) = 3
   \<and> snd (fst (pullTo
      (\<lparr>mOut = \<lparr>channelCount = 2, framesPerBurst = 96, sampleRate = 48000\<rparr>,
       mOutRing = \<lparr>mData = [Finite 1, Finite 2, Finite 0, Finite 0, Finite 0, Finite 0, Finite 0, Finite 0],
                   mChannels = 2, mCapacityFrames = 4, mMask = 3, mRead = 0, mWrite = 1\<rparr>,
       mUnderflows = 0, mOverflows = 0, mStartTime = 0\<rparr>) (replicate 6 (Finite 7)) 3 (400 * 1000000))) ! 2 = Finite 0
   \<and> mUnderflows (snd (pullTo
      (\<lparr>mOut = \<lparr>channelCount = 2, framesPerBurst = 96, sampleRate = 48000\<rparr>,
       mOutRing = \<lparr>mData = [Finite 1, Finite 2, Finite 0, Finite 0, Finite 0, Finite 0, Finite 0, Finite 0],
                   mChannels = 2, mCapacityFrames = 4, mMask = 3, mRead = 0, mWrite = 1\<rparr>,
       mUnderflows = 0, mOverflows = 0, mStartTime = 0\<rparr>) (replicate 6 (Finite 7)) 3 (400 * 1000000))) = 2
   \<and> mUnderflows (snd (pullTo
      (\<lparr>mOut = \<lparr>channelCount = 2, framesPerBurst = 96, sampleRate = 48000\<rparr>,
       mOutRing = \<lparr>mData = [Finite 1, Finite 2, Finite 0, Finite 0, Finite 0, Finite 0, Finite 0, Finite 0],
                   mChannels = 2, mCapacityFrames = 4, mMask = 3, mRead = 0, mWrite = 1\<rparr>,
       mUnderflows = 0, mOverflows = 0, mStartTime = 0\<rparr>) (replicate 6 (Finite 7)) 3 (100 * 1000000))) = 0"
proof -
  let ?eng = "(\<lparr>mOut = \<lparr>channelCount = 2, framesPerBurst = 96, sampleRate = 48000\<rparr>,
       mOutRing = \<lparr>mData = [Finite 1, Finite 2, Finite 0, Finite 0, Finite 0, Finite 0, Finite 0, Finite 0],
                   mChannels = 2, mCapacityFrames = 4, mMask = 3, mRead = 0, mWrite = 1\<rparr>,
       mUnderflows = 0, mOverflows = 0, mStartTime = 0\<rparr>)"
  let ?out = "replicate 6 (Finite (7::rat))"
  have hyp: "ring_wf (mOutRing ?eng) 2
        \<and> uint (mWrite (mOutRing ?eng) - mRead (mOutRing ?eng)) \<le> 2 ^ 2
        \<and> mChannels (mOutRing ?eng) = channelCount (mOut ?eng)
        \<and> nat 3 * nat (channelCount (mOut ?eng)) \<le> length ?out"
    by (simp add: ring_wf_def)
  have a: "availableToRead (mOutRing ?eng) = 1"
    by (simp add: availableToRead_def to_int32_def i32_def)
  have late: "ms300 \<le> 400 * 1000000 - mStartTime ?eng"
    and early: "\<not> ms300 \<le> 100 * 1000000 - mStartTime ?eng"
    by (simp_all add: ms300_def)
  note t1 = pullTo_semantics[of ?eng ?out 3 "400 * 1000000" 2, unfolded Let_def a]
  note t2 = pullTo_semantics[of ?eng ?out 3 "100 * 1000000" 2, unfolded Let_def a]
  from t1 have r: "fst (fst (pullTo ?eng ?out 3 (400 * 1000000))) = 3"
    by blast
  from t1 hyp have z: "\<forall>i. nat (min 3 1) * nat (channelCount (mOut ?eng)) \<le> i
        \<and> i < nat 3 * nat (channelCount (mOut ?eng)) \<longrightarrow>
      snd (fst (pullTo ?eng ?out 3 (400 * 1000000))) ! i = Finite 0"
    by blast
  have z2: "snd (fst (pullTo ?eng ?out 3 (400 * 1000000))) ! 2 = Finite 0"
    by (rule z[rule_format]) simp
  from t1 hyp have "mUnderflows (snd (pullTo ?eng ?out 3 (400 * 1000000))) =
      (if (1::int) < 3 \<and> ms300 \<le> 400 * 1000000 - mStartTime ?eng
       then mUnderflows ?eng + word_of_int (3 - 1) else mUnderflows ?eng)"
    by blast
  with late have u1: "mUnderflows (snd (pullTo ?eng ?out 3 (400 * 1000000))) = 2"
    by simp
  from t2 hyp have "mUnderflows (snd (pullTo ?eng ?out 3 (100 * 1000000))) =
      (if (1::int) < 3 \<and> ms300 \<le> 100 * 1000000 - mStartTime ?eng
       then mUnderflows ?eng + word_of_int (3 - 1) else mUnderflows ?eng)"
    by blast
  with early have u2: "mUnderflows (snd (pullTo ?eng ?out 3 (100 * 1000000))) = 0"
    by simp
  from r z2 u1 u2 show ?thesis
    by blast
qed
section \<open>StftProcessor: the counters and the normalisation\<close>

subsection \<open>Rounding that stays finite\<close>




subsection \<open>Counters along a push and along a pop\<close>

lemma olaAdd_fields:
  "mHopFill (olaAdd s b) = mHopFill s" "mPushed (olaAdd s b) = mPushed s"
  "mPopped (olaAdd s b) = mPopped s" "mHops (olaAdd s b) = mHops s"
  "mAvail (olaAdd s b) = mAvail s" "mOlaMask (olaAdd s b) = mOlaMask s"
  "mOlaRead (olaAdd s b) = mOlaRead s" "mHopBuf (olaAdd s b) = mHopBuf s"
  "mHist384 (olaAdd s b) = mHist384 s" "mWin (olaAdd s b) = mWin s"
  by (simp_all add: olaAdd_def Let_def)

lemma processOneHop_fields:
  "mHopFill (processOneHop m s) = mHopFill s" "mPushed (processOneHop m s) = mPushed s"
  "mPopped (processOneHop m s) = mPopped s" "mHops (processOneHop m s) = mHops s + 1"
  "mAvail (processOneHop m s) = mAvail s + word_of_int kHOP"
  "mOlaMask (processOneHop m s) = mOlaMask s" "mOlaRead (processOneHop m s) = mOlaRead s"
  "mHopBuf (processOneHop m s) = mHopBuf s" "mHist384 (processOneHop m s) = mHist384 s"
  "mWin (processOneHop m s) = mWin s"
  by (simp_all add: processOneHop_def Let_def olaAdd_fields)

lemma push_step_take:
  "snd (push_step m s mono16 frames idx) = min (kHOP - mHopFill s) (frames - idx)"
  by (simp add: push_step_def Let_def)

lemma push_step_fields:
  assumes "t = min (kHOP - mHopFill s) (frames - idx)"
  shows "mHopFill (fst (push_step m s mono16 frames idx)) =
           (if mHopFill s + t = kHOP then 0 else mHopFill s + t)"
    and "mHops (fst (push_step m s mono16 frames idx)) =
           (if mHopFill s + t = kHOP then mHops s + 1 else mHops s)"
    and "mAvail (fst (push_step m s mono16 frames idx)) =
           (if mHopFill s + t = kHOP then mAvail s + word_of_int kHOP else mAvail s)"
    and "mPushed (fst (push_step m s mono16 frames idx)) = mPushed s"
    and "mPopped (fst (push_step m s mono16 frames idx)) = mPopped s"
  unfolding assms by (simp_all add: push_step_def Let_def processOneHop_fields)

lemma hop_arith_full:
  fixes f r t :: int
  assumes "f + t = 96" and "t \<le> r"
  shows "(f + r) mod 96 = (r - t) mod 96" and "(f + r) div 96 = 1 + (r - t) div 96"
proof -
  have e: "f + r = (r - t) + 1 * 96"
    using assms(1) by simp
  show "(f + r) mod 96 = (r - t) mod 96"
    unfolding e by (rule mod_mult_self1)
  show "(f + r) div 96 = 1 + (r - t) div 96"
    unfolding e by (subst div_mult_self1) simp_all
qed

lemma hop_arith_part:
  fixes f r :: int
  assumes "0 \<le> f" and "0 \<le> r" and "f + r < 96"
  shows "(f + r) mod 96 = f + r" and "(f + r) div 96 = 0"
  using assms by simp_all

lemma push_loop_counts:
  assumes "0 \<le> mHopFill s" and "mHopFill s < 96" and "idx \<le> frames"
  shows "\<exists>s'. push_loop m s mono16 frames idx = Some s'
     \<and> mHopFill s' = (mHopFill s + (frames - idx)) mod 96
     \<and> mHops s' = mHops s + word_of_int ((mHopFill s + (frames - idx)) div 96)
     \<and> mAvail s' = mAvail s + 96 * word_of_int ((mHopFill s + (frames - idx)) div 96)
     \<and> mPushed s' = mPushed s \<and> mPopped s' = mPopped s"
  using assms
proof (induction "nat (frames - idx)" arbitrary: s idx rule: less_induct)
  case less
  define f where "f = mHopFill s"
  define r where "r = frames - idx"
  have f0: "0 \<le> f" and f96: "f < 96" and r0: "0 \<le> r"
    using less.prems by (simp_all add: f_def r_def)
  show ?case
  proof (cases "idx < frames")
    case False
    then have "r = 0"
      using less.prems(3) by (simp add: r_def)
    moreover have "push_loop m s mono16 frames idx = Some s"
      using False by (subst push_loop.simps) simp
    ultimately show ?thesis
      using f0 f96 by (simp add: f_def[symmetric] r_def[symmetric])
  next
    case True
    define t where "t = min (kHOP - mHopFill s) (frames - idx)"
    have t_eq: "t = min (96 - f) r"
      by (simp add: t_def kHOP_def f_def r_def)
    have tpos: "0 < t" and tr: "t \<le> r" and tf: "f + t \<le> 96"
      using True f96 by (simp_all add: t_eq r_def)
    define s1 where "s1 = fst (push_step m s mono16 frames idx)"
    note fld = push_step_fields[OF t_def, of m mono16, folded s1_def, unfolded kHOP_def f_def[symmetric]]
    have unf: "push_loop m s mono16 frames idx = push_loop m s1 mono16 frames (idx + t)"
      using True by (subst push_loop.simps) (simp add: s1_def push_step_take t_def)
    have r1: "frames - (idx + t) = r - t"
      by (simp add: r_def)
    have fill1: "0 \<le> mHopFill s1" "mHopFill s1 < 96"
      using f0 tpos tf unfolding fld(1) by (simp_all split: if_splits)
    have "nat (frames - (idx + t)) < nat (frames - idx)"
      using tpos tr unfolding r1 r_def[symmetric] by linarith
    moreover have "idx + t \<le> frames"
      using tr by (simp add: r_def)
    ultimately obtain s' where s': "push_loop m s1 mono16 frames (idx + t) = Some s'"
      "mHopFill s' = (mHopFill s1 + (r - t)) mod 96"
      "mHops s' = mHops s1 + word_of_int ((mHopFill s1 + (r - t)) div 96)"
      "mAvail s' = mAvail s1 + 96 * word_of_int ((mHopFill s1 + (r - t)) div 96)"
      "mPushed s' = mPushed s1" "mPopped s' = mPopped s1"
      using less.hyps[of "idx + t" s1, OF _ fill1] unfolding r1 by blast
    show ?thesis
    proof (cases "f + t = 96")
      case True
      note a = hop_arith_full[OF True tr]
      have "mHopFill s' = (f + r) mod 96"
        unfolding s'(2) fld(1) a(1) using True by simp
      moreover have "mHops s' = mHops s + word_of_int ((f + r) div 96)"
        unfolding s'(3) fld(1,2) a(2) using True by simp
      moreover have "mAvail s' = mAvail s + 96 * word_of_int ((f + r) div 96)"
        unfolding s'(4) fld(1,3) a(2) using True by (simp add: algebra_simps)
      ultimately show ?thesis
        unfolding unf f_def[symmetric] r_def[symmetric] using s'(1,5,6) fld(4,5) by simp
    next
      case False
      with tf have lt: "f + t < 96"
        by simp
      then have "t = r"
        unfolding t_eq by linarith
      note a = hop_arith_part[OF f0 r0 lt[unfolded \<open>t = r\<close>]]
      have "mHopFill s' = (f + r) mod 96"
        unfolding s'(2) fld(1) using False \<open>t = r\<close> by simp
      moreover have "mHops s' = mHops s + word_of_int ((f + r) div 96)"
        unfolding s'(3) fld(1,2) using False \<open>t = r\<close> by (simp add: a(2))
      moreover have "mAvail s' = mAvail s + 96 * word_of_int ((f + r) div 96)"
        unfolding s'(4) fld(1,3) using False \<open>t = r\<close> by (simp add: a(2))
      ultimately show ?thesis
        unfolding unf f_def[symmetric] r_def[symmetric] using s'(1,5,6) fld(4,5) by simp
    qed
  qed
qed

lemma uint_add_of_int:
  fixes a :: "64 word"
  assumes "0 \<le> uint a + n" and "uint a + n < 2 ^ 64"
  shows "uint (a + word_of_int n) = uint a + n"
proof -
  have "a + word_of_int n = word_of_int (uint a + n)"
    by simp
  then have "uint (a + word_of_int n) = (uint a + n) mod 2 ^ 64"
    by (simp only: uint_word_of_int) simp
  also have "\<dots> = uint a + n"
    using assms by (rule mod_pos_pos_trivial)
  finally show ?thesis .
qed

lemma uint_sub_of_int:
  fixes a :: "64 word"
  assumes "0 \<le> n" and "n \<le> uint a"
  shows "uint (a - word_of_int n) = uint a - n"
proof -
  have lt: "uint a < 2 ^ 64"
    using uint_lt2p[of a] by simp
  have "uint (a + word_of_int (- n)) = uint a + (- n)"
    using assms lt by (intro uint_add_of_int) simp_all
  then show ?thesis
    by simp
qed

lemma to_int32_uint:
  fixes a :: "64 word"
  assumes "uint a < 2 ^ 31"
  shows "to_int32 a = uint a"
  using assms by (simp add: to_int32_def i32_id_nonneg)

lemma popTimeDomain_fields:
  "fst (fst (popTimeDomain s out16 maxFrames)) = min maxFrames (to_int32 (mAvail s))"
  "mAvail (snd (popTimeDomain s out16 maxFrames)) = mAvail s - word_of_int (min maxFrames (to_int32 (mAvail s)))"
  "mPopped (snd (popTimeDomain s out16 maxFrames)) = mPopped s + word_of_int (min maxFrames (to_int32 (mAvail s)))"
  "mPushed (snd (popTimeDomain s out16 maxFrames)) = mPushed s"
  "mHops (snd (popTimeDomain s out16 maxFrames)) = mHops s"
  "mHopFill (snd (popTimeDomain s out16 maxFrames)) = mHopFill s"
  by (simp_all add: popTimeDomain_def Let_def)

lemma stft_inv_new: "stft_inv (StftProcessor_new m)"
  by (simp add: stft_inv_def StftProcessor_new_def)

lemma stft_inv_facts:
  assumes "stft_inv s"
  shows "uint (mHops s) = uint (mPushed s) div 96" and "uint (mPopped s) \<le> uint (mPushed s)"
proof -
  from assms have f: "0 \<le> mHopFill s" "mHopFill s < 96"
    and p: "uint (mPushed s) = 96 * uint (mHops s) + mHopFill s"
    and q: "uint (mPopped s) + uint (mAvail s) = 96 * uint (mHops s)"
    by (simp_all add: stft_inv_def)
  show "uint (mHops s) = uint (mPushed s) div 96"
    unfolding p using f by simp
  have "0 \<le> uint (mAvail s)"
    by simp
  with q p f show "uint (mPopped s) \<le> uint (mPushed s)"
    by linarith
qed

lemma pop_step_inv:
  fixes out16 :: "f32 list"
  assumes "stft_inv s" and "0 \<le> maxFrames" and "uint (mAvail s) < 2 ^ 31"
  defines "s' \<equiv> snd (popTimeDomain s out16 maxFrames)"
  shows "stft_inv s'"
    and "uint (mPopped s') = uint (mPopped s) + min maxFrames (uint (mAvail s))"
    and "uint (mAvail s') = uint (mAvail s) - min maxFrames (uint (mAvail s))"
    and "mPushed s' = mPushed s" and "mHops s' = mHops s"
proof -
  define w where "w = min maxFrames (uint (mAvail s))"
  have want: "min maxFrames (to_int32 (mAvail s)) = w"
    by (simp add: w_def to_int32_uint[OF assms(3)])
  have w0: "0 \<le> w" and wa: "w \<le> uint (mAvail s)"
    using assms(2) by (simp_all add: w_def)
  from assms(1) have q: "uint (mPopped s) + uint (mAvail s) = 96 * uint (mHops s)"
    and p: "uint (mPushed s) = 96 * uint (mHops s) + mHopFill s" and f: "0 \<le> mHopFill s"
    by (simp_all add: stft_inv_def)
  have "uint (mPushed s) < 2 ^ 64"
    using uint_lt2p[of "mPushed s"] by simp
  with q p f wa have lt: "uint (mPopped s) + w < 2 ^ 64"
    by linarith
  have a: "uint (mAvail s') = uint (mAvail s) - w"
    unfolding s'_def popTimeDomain_fields want using w0 wa by (rule uint_sub_of_int)
  have b: "uint (mPopped s') = uint (mPopped s) + w"
    unfolding s'_def popTimeDomain_fields want using w0 lt by (intro uint_add_of_int) simp_all
  show "uint (mPopped s') = uint (mPopped s) + min maxFrames (uint (mAvail s))"
    using b by (simp add: w_def)
  show "uint (mAvail s') = uint (mAvail s) - min maxFrames (uint (mAvail s))"
    using a by (simp add: w_def)
  show "mPushed s' = mPushed s" and "mHops s' = mHops s"
    by (simp_all add: s'_def popTimeDomain_fields)
  show "stft_inv s'"
    using assms(1) a b by (simp add: stft_inv_def s'_def popTimeDomain_fields)
qed

lemma hops_crossed:
  fixes H f n :: int
  assumes "0 \<le> f" and "f < 96"
  shows "(96 * H + f + n) div 96 - (96 * H + f) div 96 = (f + n) div 96"
proof -
  have "(96 * H + f + n) div 96 = ((f + n) + H * 96) div 96"
    by (simp add: algebra_simps)
  also have "\<dots> = H + (f + n) div 96"
    by (subst div_mult_self1) simp_all
  finally have a: "(96 * H + f + n) div 96 = H + (f + n) div 96" .
  have "(96 * H + f) div 96 = (f + H * 96) div 96"
    by (simp add: algebra_simps)
  also have "\<dots> = H + f div 96"
    by (subst div_mult_self1) simp_all
  also have "f div 96 = 0"
    using assms by simp
  finally show ?thesis
    using a by simp
qed

lemma push_inv:
  assumes "stft_inv s" and "0 \<le> frames" and "uint (mPushed s) + frames < 2 ^ 64"
  shows "\<exists>s'. pushTimeDomain m s mono16 frames = Some s' \<and> stft_inv s'
     \<and> uint (mPushed s') = uint (mPushed s) + frames
     \<and> uint (mHops s') = uint (mHops s) + (mHopFill s + frames) div 96
     \<and> uint (mAvail s') = uint (mAvail s) + 96 * ((mHopFill s + frames) div 96)
     \<and> mHops s' = mHops s + word_of_int ((mHopFill s + frames) div 96)
     \<and> mAvail s' = mAvail s + 96 * word_of_int ((mHopFill s + frames) div 96)
     \<and> mPopped s' = mPopped s"
proof -
  define f where "f = mHopFill s"
  define h where "h = (f + frames) div 96"
  from assms(1) have f0: "0 \<le> f" and f96: "f < 96"
    and p: "uint (mPushed s) = 96 * uint (mHops s) + f"
    and q: "uint (mPopped s) + uint (mAvail s) = 96 * uint (mHops s)"
    by (simp_all add: stft_inv_def f_def)
  define s0 where "s0 = s\<lparr>mPushed := mPushed s + word_of_int frames\<rparr>"
  have s0f: "mHopFill s0 = f" "mHops s0 = mHops s" "mAvail s0 = mAvail s" "mPopped s0 = mPopped s"
    "mPushed s0 = mPushed s + word_of_int frames"
    by (simp_all add: s0_def f_def)
  from push_loop_counts[of s0 0 frames m mono16] f0 f96 assms(2)
  obtain s' where s': "push_loop m s0 mono16 frames 0 = Some s'"
    "mHopFill s' = (f + frames) mod 96"
    "mHops s' = mHops s + word_of_int h"
    "mAvail s' = mAvail s + 96 * word_of_int h"
    "mPushed s' = mPushed s + word_of_int frames" "mPopped s' = mPopped s"
    unfolding s0f h_def by auto
  have h0: "0 \<le> h"
    using f0 assms(2) by (simp add: h_def pos_imp_zdiv_nonneg_iff)
  define M where "M = (f + frames) mod 96"
  define B :: int where "B = 2 ^ 64"
  have dm: "f + frames = 96 * h + M"
    unfolding h_def M_def by simp
  have m0: "0 \<le> M" and m96: "M < 96"
    by (simp_all add: M_def)
  have "uint (mPushed s) + frames < B"
    using assms(3) by (simp add: B_def)
  with p dm m0 have hB: "96 * uint (mHops s) + 96 * h < B"
    by linarith
  then have hb: "96 * uint (mHops s) + 96 * h < 2 ^ 64"
    by (simp add: B_def)
  have H0: "0 \<le> uint (mHops s)"
    by simp
  from hB H0 h0 have "uint (mHops s) + h < B"
    by linarith
  then have hb': "uint (mHops s) + h < 2 ^ 64"
    by (simp add: B_def)
  have pushed: "uint (mPushed s') = uint (mPushed s) + frames"
    unfolding s'(5) using assms(2,3) by (intro uint_add_of_int) simp_all
  have hops: "uint (mHops s') = uint (mHops s) + h"
    unfolding s'(3) using h0 hb' by (intro uint_add_of_int) simp_all
  have "96 * word_of_int h = (word_of_int (96 * h) :: 64 word)"
    by simp
  then have av: "mAvail s' = mAvail s + word_of_int (96 * h)"
    unfolding s'(4) by simp
  have "0 \<le> uint (mPopped s)"
    by simp
  with q have "uint (mAvail s) \<le> 96 * uint (mHops s)"
    by linarith
  with hB have "uint (mAvail s) + 96 * h < B"
    by linarith
  then have "uint (mAvail s) + 96 * h < 2 ^ 64"
    by (simp add: B_def)
  then have avail: "uint (mAvail s') = uint (mAvail s) + 96 * h"
    unfolding av using h0 by (intro uint_add_of_int) simp_all
  have inv: "stft_inv s'"
    unfolding stft_inv_def s'(2) s'(6) pushed hops avail M_def[symmetric] distrib_left
    using m0 m96 p q dm by linarith
  have "pushTimeDomain m s mono16 frames = Some s'"
    unfolding pushTimeDomain_def s0_def[symmetric] by (rule s'(1))
  with inv pushed hops avail s'(3,4,6) show ?thesis
    unfolding h_def f_def by blast
qed

lemma reach_inv: "reach m s \<Longrightarrow> stft_inv s"
proof (induction rule: reach.induct)
  case reach_new
  show ?case
    by (rule stft_inv_new)
next
  case (reach_push s frames mono16 s')
  from push_inv[OF reach_push.IH reach_push.hyps(2) reach_push.hyps(4), of m mono16]
  show ?case
    using reach_push.hyps(5) by auto
next
  case (reach_pop s maxFrames out16)
  show ?case
    using reach_pop.IH reach_pop.hyps(2) reach_pop.hyps(4) by (rule pop_step_inv(1))
qed

lemma pushed_state:
  assumes "stft_inv s" and "0 \<le> frames" and "uint (mPushed s) + frames < 2 ^ 64"
  shows "pushTimeDomain null_libm s (replicate (nat frames) (Finite 0)) frames = Some (pushed s frames)"
    and "stft_inv (pushed s frames)"
    and "uint (mPushed (pushed s frames)) = uint (mPushed s) + frames"
    and "mPopped (pushed s frames) = mPopped s"
proof -
  from push_inv[OF assms, of null_libm "replicate (nat frames) (Finite 0)"]
  obtain s' where s': "pushTimeDomain null_libm s (replicate (nat frames) (Finite 0)) frames = Some s'"
    "stft_inv s'" "uint (mPushed s') = uint (mPushed s) + frames" "mPopped s' = mPopped s"
    by blast
  have e: "pushed s frames = s'"
    by (simp add: pushed_def s'(1))
  show "pushTimeDomain null_libm s (replicate (nat frames) (Finite 0)) frames = Some (pushed s frames)"
    unfolding e by (rule s'(1))
  show "stft_inv (pushed s frames)"
    unfolding e by (rule s'(2))
  show "uint (mPushed (pushed s frames)) = uint (mPushed s) + frames"
    unfolding e by (rule s'(3))
  show "mPopped (pushed s frames) = mPopped s"
    unfolding e by (rule s'(4))
qed

lemma pushed_reach:
  assumes "reach null_libm s" and "0 \<le> frames" and "uint (mPushed s) + frames < 2 ^ 64"
  shows "reach null_libm (pushed s frames)"
proof -
  note st = pushed_state[OF reach_inv[OF assms(1)] assms(2,3)]
  show ?thesis
    using assms(1,2) _ assms(3) st(1) by (rule reach_push) simp
qed

lemma stft_inv_avail:
  assumes "stft_inv s"
  shows "uint (mAvail s) = 96 * (uint (mPushed s) div 96) - uint (mPopped s)"
  using assms stft_inv_facts(1)[OF assms] by (simp add: stft_inv_def)

subsection \<open>The overlap-add ring\<close>






















subsection \<open>Runs on silence\<close>

lemma new_counters:
  "mPushed (StftProcessor_new m) = 0" "mPopped (StftProcessor_new m) = 0"
  "mHops (StftProcessor_new m) = 0" "mAvail (StftProcessor_new m) = 0"
  by (simp_all add: StftProcessor_new_def)

subsection \<open>The counter invariant\<close>

text \<open>
  C4. The spec rules out an overrun of the overlap-add ring (the consumer drains within
  \<open>C - N\<close> samples of the producer, \<open>C = 32768\<close>), so that in the interleavings it speaks of the
  number of pending samples stays far below \<open>2\<^sup>3\<^sup>1\<close>, which is all that \<open>reach\<close> asks of a pop. In
  every state that such an interleaving of \<open>pushTimeDomain\<close> and \<open>popTimeDomain\<close> calls reaches,
  \<open>hopsProcessed\<close> is the number of pushed samples divided by 96, rounded down, and
  \<open>framesPopped\<close> is at most \<open>framesPushed\<close>. The three counters never decrease: a further push
  returns and adds its count to \<open>framesPushed\<close>, leaves \<open>framesPopped\<close> alone and does not lower
  \<open>hopsProcessed\<close>; a further pop leaves \<open>framesPushed\<close> and \<open>hopsProcessed\<close> alone and does not
  lower \<open>framesPopped\<close>.
\<close>

theorem stft_counter_invariant:
  assumes "reach m s"
  shows "uint (hopsProcessed s) = uint (framesPushed s) div 96
     \<and> uint (framesPopped s) \<le> uint (framesPushed s)
     \<and> (\<forall>mono16 frames. 0 \<le> frames \<and> uint (framesPushed s) + frames < 2 ^ 64 \<longrightarrow>
          (\<exists>s'. pushTimeDomain m s mono16 frames = Some s'
             \<and> uint (framesPushed s') = uint (framesPushed s) + frames
             \<and> framesPopped s' = framesPopped s
             \<and> uint (hopsProcessed s) \<le> uint (hopsProcessed s')))
     \<and> (\<forall>out16 maxFrames. 0 \<le> maxFrames \<and> uint (mAvail s) < 2 ^ 31 \<longrightarrow>
          framesPushed (snd (popTimeDomain s out16 maxFrames)) = framesPushed s
          \<and> hopsProcessed (snd (popTimeDomain s out16 maxFrames)) = hopsProcessed s
          \<and> uint (framesPopped s) \<le> uint (framesPopped (snd (popTimeDomain s out16 maxFrames))))"
proof -
  note inv = reach_inv[OF assms]
  have a: "uint (hopsProcessed s) = uint (framesPushed s) div 96"
    unfolding hopsProcessed_def framesPushed_def by (rule stft_inv_facts(1)[OF inv])
  have b: "uint (framesPopped s) \<le> uint (framesPushed s)"
    unfolding framesPopped_def framesPushed_def by (rule stft_inv_facts(2)[OF inv])
  have c: "\<exists>s'. pushTimeDomain m s mono16 frames = Some s'
             \<and> uint (framesPushed s') = uint (framesPushed s) + frames
             \<and> framesPopped s' = framesPopped s
             \<and> uint (hopsProcessed s) \<le> uint (hopsProcessed s')"
    if "0 \<le> frames" and "uint (framesPushed s) + frames < 2 ^ 64" for mono16 frames
  proof -
    from push_inv[OF inv that(1) that(2)[unfolded framesPushed_def], of m mono16]
    obtain s' where s': "pushTimeDomain m s mono16 frames = Some s'"
      "uint (mPushed s') = uint (mPushed s) + frames"
      "uint (mHops s') = uint (mHops s) + (mHopFill s + frames) div 96"
      "mPopped s' = mPopped s"
      by blast
    have "0 \<le> mHopFill s"
      using inv by (simp add: stft_inv_def)
    with that(1) have "0 \<le> (mHopFill s + frames) div 96"
      by (simp add: pos_imp_zdiv_nonneg_iff)
    with s'(3) have "uint (mHops s) \<le> uint (mHops s')"
      by linarith
    with s'(1,2,4) show ?thesis
      unfolding hopsProcessed_def framesPushed_def framesPopped_def by blast
  qed
  have d: "framesPushed (snd (popTimeDomain s out16 maxFrames)) = framesPushed s
          \<and> hopsProcessed (snd (popTimeDomain s out16 maxFrames)) = hopsProcessed s
          \<and> uint (framesPopped s) \<le> uint (framesPopped (snd (popTimeDomain s out16 maxFrames)))"
    if "0 \<le> maxFrames" and "uint (mAvail s) < 2 ^ 31" for out16 :: "f32 list" and maxFrames
  proof -
    note st = pop_step_inv[OF inv that, of out16]
    have "0 \<le> min maxFrames (uint (mAvail s))"
      using that(1) by simp
    with st(2) have "uint (mPopped s) \<le> uint (mPopped (snd (popTimeDomain s out16 maxFrames)))"
      by linarith
    with st(4,5) show ?thesis
      unfolding hopsProcessed_def framesPushed_def framesPopped_def by blast
  qed
  from a b c d show ?thesis
    by blast
qed

text \<open>
  Witness of C4: a fresh engine after a push of 100 samples has processed one hop; a pop of 96
  and a push of 50 more are calls the theorem covers.
\<close>

theorem stft_counter_invariant_witness:
  "reach null_libm (pushed (StftProcessor_new null_libm) 100)
   \<and> uint (framesPushed (pushed (StftProcessor_new null_libm) 100)) = 100
   \<and> uint (hopsProcessed (pushed (StftProcessor_new null_libm) 100)) = 1
   \<and> uint (framesPopped (pushed (StftProcessor_new null_libm) 100))
        \<le> uint (framesPushed (pushed (StftProcessor_new null_libm) 100))
   \<and> uint (mAvail (pushed (StftProcessor_new null_libm) 100)) < 2 ^ 31
   \<and> uint (framesPopped (pushed (StftProcessor_new null_libm) 100))
        \<le> uint (framesPopped (snd (popTimeDomain (pushed (StftProcessor_new null_libm) 100)
              (replicate 96 (Finite 0)) 96)))
   \<and> pushTimeDomain null_libm (pushed (StftProcessor_new null_libm) 100) (replicate 50 (Finite 0)) 50 \<noteq> None"
proof -
  define s where "s = pushed (StftProcessor_new null_libm) 100"
  have r0: "reach null_libm (StftProcessor_new null_libm)"
    by (rule reach_new)
  have r: "reach null_libm s"
    unfolding s_def using r0 by (rule pushed_reach) (simp_all add: new_counters)
  have p: "uint (mPushed s) = 100" "uint (mPopped s) = 0"
    unfolding s_def using pushed_state(3,4)[OF reach_inv[OF r0], of 100]
    by (simp_all add: new_counters)
  have av: "uint (mAvail s) = 96"
    using stft_inv_avail[OF reach_inv[OF r]] by (simp add: p)
  note t = stft_counter_invariant[OF r]
  have "uint (hopsProcessed s) = 1"
    using t p(1) by (simp add: framesPushed_def)
  moreover have "uint (framesPopped s) \<le> uint (framesPushed s)"
    using t by blast
  moreover have "uint (framesPopped s) \<le> uint (framesPopped (snd (popTimeDomain s (replicate 96 (Finite 0)) 96)))"
    using t av by simp
  moreover have "pushTimeDomain null_libm s (replicate 50 (Finite 0)) 50 \<noteq> None"
  proof -
    have "(0::int) \<le> 50 \<and> uint (framesPushed s) + 50 < 2 ^ 64"
      by (simp add: framesPushed_def p)
    with t obtain s' where "pushTimeDomain null_libm s (replicate 50 (Finite 0)) 50 = Some s'"
      by blast
    then show ?thesis
      by simp
  qed
  ultimately show ?thesis
    using r p(1) av unfolding s_def[symmetric] framesPushed_def by simp
qed

subsection \<open>The output quantum of a hop\<close>

lemma pop_returns_quantum:
  assumes "96 \<le> uint (mAvail s)" and "uint (mAvail s) < 2 ^ 31"
  shows "fst (fst (popTimeDomain s out16 96)) = 96"
  unfolding popTimeDomain_fields to_int32_uint[OF assms(2)] using assms(1) by simp

text \<open>
  C2. From every reachable state a push of \<open>frames\<close> samples returns; for each multiple of 96
  that the number of pushed samples crosses, one hop is processed and exactly 96 samples
  become available; and when at least one multiple was crossed, \<open>popTimeDomain(out, 96)\<close> returns
  96. The last part needs the pending count to fit an \<^verbatim>\<open>int\<close>, which it does with room to spare
  in a ring that is not overrun.
\<close>

theorem stft_hop_quantum:
  assumes "reach m s" and "0 \<le> frames" and "uint (framesPushed s) + frames < 2 ^ 64"
  shows "\<exists>s'. pushTimeDomain m s mono16 frames = Some s'
     \<and> uint (hopsProcessed s') = uint (hopsProcessed s)
          + ((uint (framesPushed s) + frames) div 96 - uint (framesPushed s) div 96)
     \<and> uint (mAvail s') = uint (mAvail s)
          + 96 * ((uint (framesPushed s) + frames) div 96 - uint (framesPushed s) div 96)
     \<and> (uint (framesPushed s) div 96 < (uint (framesPushed s) + frames) div 96
          \<and> uint (mAvail s') < 2 ^ 31
        \<longrightarrow> fst (fst (popTimeDomain s' out16 96)) = 96)"
proof -
  note inv = reach_inv[OF assms(1)]
  from inv have f: "0 \<le> mHopFill s" "mHopFill s < 96"
    and p: "uint (mPushed s) = 96 * uint (mHops s) + mHopFill s"
    by (simp_all add: stft_inv_def)
  define h where "h = (mHopFill s + frames) div 96"
  have hc: "(uint (framesPushed s) + frames) div 96 - uint (framesPushed s) div 96 = h"
    unfolding framesPushed_def p h_def using f by (rule hops_crossed)
  from push_inv[OF inv assms(2) assms(3)[unfolded framesPushed_def], of m mono16]
  obtain s' where s': "pushTimeDomain m s mono16 frames = Some s'"
    "uint (mHops s') = uint (mHops s) + h"
    "uint (mAvail s') = uint (mAvail s) + 96 * h"
    unfolding h_def by blast
  have "fst (fst (popTimeDomain s' out16 96)) = 96"
    if "uint (framesPushed s) div 96 < (uint (framesPushed s) + frames) div 96"
      and "uint (mAvail s') < 2 ^ 31"
  proof -
    from that(1) hc have "1 \<le> h"
      by linarith
    moreover have "0 \<le> uint (mAvail s)"
      by simp
    ultimately have "96 \<le> uint (mAvail s')"
      unfolding s'(3) by linarith
    then show ?thesis
      using that(2) by (rule pop_returns_quantum)
  qed
  with s' show ?thesis
    unfolding hc hopsProcessed_def by blast
qed

text \<open>
  Witness of C2: 100 samples pushed into a fresh engine cross one multiple of 96; one hop is
  processed, 96 samples are available and the pop returns 96.
\<close>

theorem stft_hop_quantum_witness:
  "reach null_libm (StftProcessor_new null_libm)
   \<and> (0::int) \<le> 100 \<and> uint (framesPushed (StftProcessor_new null_libm)) + 100 < 2 ^ 64
   \<and> pushTimeDomain null_libm (StftProcessor_new null_libm) (replicate 100 (Finite 0)) 100
        = Some (pushed (StftProcessor_new null_libm) 100)
   \<and> uint (hopsProcessed (pushed (StftProcessor_new null_libm) 100)) = 1
   \<and> uint (mAvail (pushed (StftProcessor_new null_libm) 100)) = 96
   \<and> fst (fst (popTimeDomain (pushed (StftProcessor_new null_libm) 100) (replicate 96 (Finite 0)) 96)) = 96"
proof -
  have r0: "reach null_libm (StftProcessor_new null_libm)"
    by (rule reach_new)
  have b: "uint (framesPushed (StftProcessor_new null_libm)) + 100 < 2 ^ 64"
    by (simp add: framesPushed_def new_counters)
  from stft_hop_quantum[OF r0 _ b, of "replicate 100 (Finite 0)" "replicate 96 (Finite 0)"]
  obtain s' where s': "pushTimeDomain null_libm (StftProcessor_new null_libm) (replicate 100 (Finite 0)) 100 = Some s'"
    "uint (hopsProcessed s') = 1" "uint (mAvail s') = 96"
    "fst (fst (popTimeDomain s' (replicate 96 (Finite 0)) 96)) = 96"
    by (auto simp add: framesPushed_def hopsProcessed_def new_counters)
  have e: "pushed (StftProcessor_new null_libm) 100 = s'"
    using s'(1) by (simp add: pushed_def)
  show ?thesis
    unfolding e using r0 b s' by simp
qed

subsection \<open>Normalisation on the way out\<close>





end
